theory Spec2Isabelle
  imports Main "HOL-Library.Word"
begin

unbundle bit_operations_syntax

section \<open>Data model\<close>

text \<open>
  A \<open>uint8_t*\<close> argument is modelled as the memory it points into, a total map from
  byte index to byte, index 0 being the byte the caller's pointer addresses. Pointer
  arithmetic inside a kernel (\<open>dest += dest_byte_offset\<close>) is an explicit byte index
  \<open>p\<close> carried next to the memory. Source and destination are separate memories,
  as the separate parameters of the claims are. The \<open>int64_t\<close> offsets and lengths
  are restricted to non-negative values by the preconditions of the library
  (\<open>DCHECK_GE(bit_offset, 0)\<close>), so they are natural numbers here; on them C++'s
  \<open>/\<close> and \<open>%\<close> are \<open>div\<close> and \<open>mod\<close>.
\<close>

type_synonym uint8 = "8 word"
type_synonym uint32 = "32 word"
type_synonym uint64 = "64 word"
type_synonym bytes = "nat \<Rightarrow> uint8"

section \<open>Bit-addressing primitives (arrow/util/bit_util.h, ubsan.h)\<close>

text \<open>Modelled from the spec: \<open>BitUtil::BytesForBits\<close> is declared in bit_util.h, which is
  not among the sources; section 4.1 gives \<open>bytes_for_bits(n) = (n+7)/8\<close>.\<close>

definition BytesForBits :: "nat \<Rightarrow> nat" where
  "BytesForBits bits = (bits + 7) div 8"

text \<open>Modelled from the spec: \<open>BitUtil::GetBit\<close> (bit_util.h, not among the sources);
  section 3: bit \<open>i\<close> of a buffer is \<open>(buf[i/8] >> (i%8)) & 1\<close>. The pointer is the
  pair of the memory and the byte index \<open>p\<close>.\<close>

definition GetBit :: "bytes \<Rightarrow> nat \<Rightarrow> nat \<Rightarrow> bool" where
  "GetBit bits p i = (drop_bit (i mod 8) (bits (p + i div 8)) AND 1 \<noteq> 0)"

text \<open>Modelled from the spec: \<open>BitUtil::SetBit\<close> (bit_util.h, not among the sources);
  section 4.1: set modifies one bit.\<close>

definition SetBit :: "bytes \<Rightarrow> nat \<Rightarrow> nat \<Rightarrow> bytes" where
  "SetBit bits p i = bits(p + i div 8 := bits (p + i div 8) OR push_bit (i mod 8) 1)"

text \<open>Modelled from the spec: \<open>BitUtil::ClearBit\<close> (bit_util.h, not among the sources);
  section 4.1: clear modifies one bit.\<close>

definition ClearBit :: "bytes \<Rightarrow> nat \<Rightarrow> nat \<Rightarrow> bytes" where
  "ClearBit bits p i =
     bits(p + i div 8 := bits (p + i div 8) AND NOT (push_bit (i mod 8) 1))"

text \<open>Modelled from the spec: \<open>BitUtil::PopCount\<close> (bit_util.h, not among the sources);
  section 4.4: the hardware population count of a 64-bit word.\<close>

definition PopCount :: "uint64 \<Rightarrow> nat" where
  "PopCount w = length (filter (bit w) [0..<64])"

text \<open>Modelled from the spec: \<open>util::SafeLoadAs<uint64_t>\<close> followed by
  \<open>BitUtil::ToLittleEndian\<close> (ubsan.h and bit_util.h, not among the sources); section 4.1:
  read eight bytes from a possibly unaligned address and return their little-endian
  interpretation. This is the lambda \<open>load_word\<close> of the source.\<close>

definition load_word :: "bytes \<Rightarrow> nat \<Rightarrow> uint64" where
  "load_word bs p = word_rcat (rev (map (\<lambda>k. bs (p + k)) [0..<8]))"

text \<open>Modelled from the spec: \<open>util::SafeStore\<close> of \<open>BitUtil::FromLittleEndian(word)\<close>
  (not among the sources); section 4.1: the inverse of the load. This is the lambda
  \<open>write_word\<close> of the source.\<close>

definition write_word :: "bytes \<Rightarrow> nat \<Rightarrow> uint64 \<Rightarrow> bytes" where
  "write_word bs p w =
     (\<lambda>i. if p \<le> i \<and> i < p + 8 then ucast (drop_bit (8 * (i - p)) w) else bs i)"

text \<open>The lambda \<open>shift_word\<close> of \<open>TransferBitmap\<close> and \<open>BitmapEquals\<close>.\<close>

definition shift_word :: "uint64 \<Rightarrow> uint64 \<Rightarrow> nat \<Rightarrow> uint64" where
  "shift_word current next shift =
     (if shift = 0 then current
      else drop_bit shift current OR push_bit (64 - shift) next)"

text \<open>\<open>std::memcpy(dest + dp, src + sp, n)\<close> on separate memories.\<close>

definition memcpy :: "bytes \<Rightarrow> nat \<Rightarrow> bytes \<Rightarrow> nat \<Rightarrow> nat \<Rightarrow> bytes" where
  "memcpy dest dp src sp n =
     (\<lambda>i. if dp \<le> i \<and> i < dp + n then src (sp + (i - dp)) else dest i)"

text \<open>\<open>std::memcmp(left + lp, right + rp, n) == 0\<close>.\<close>

definition memcmp_eq :: "bytes \<Rightarrow> nat \<Rightarrow> bytes \<Rightarrow> nat \<Rightarrow> nat \<Rightarrow> bool" where
  "memcmp_eq left lp right rp n =
     (map (\<lambda>k. left (lp + k)) [0..<n] = map (\<lambda>k. right (rp + k)) [0..<n])"

section \<open>Sequential bit reader and writer (bitmap_reader.h, bitmap_writer.h)\<close>

record BitmapReader =
  r_byte_offset :: nat
  r_bit_offset :: nat
  r_position :: nat
  r_length :: nat
  r_current_byte :: uint8

text \<open>Modelled from the spec: the constructor of \<open>internal::BitmapReader\<close> (bitmap_reader.h,
  not among the sources); section 4.2: a reader binds to (buf, bit_offset, length) and
  keeps a current byte cache and a bit cursor within that byte.\<close>

definition BitmapReader_new :: "bytes \<Rightarrow> nat \<Rightarrow> nat \<Rightarrow> nat \<Rightarrow> BitmapReader" where
  "BitmapReader_new bitmap p start_offset len =
     \<lparr> r_byte_offset = start_offset div 8,
       r_bit_offset = start_offset mod 8,
       r_position = 0,
       r_length = len,
       r_current_byte = (if 0 < len then bitmap (p + start_offset div 8) else 0) \<rparr>"

text \<open>Modelled from the spec: \<open>BitmapReader::IsSet\<close> (not among the sources); section 4.2:
  \<open>is_set()\<close> returns the current bit.\<close>

definition IsSet :: "BitmapReader \<Rightarrow> bool" where
  "IsSet r = (r_current_byte r AND push_bit (r_bit_offset r) 1 \<noteq> 0)"

text \<open>Modelled from the spec: \<open>BitmapReader::Next\<close> (not among the sources); section 4.2:
  \<open>next()\<close> advances by one bit, refilling the cache when it crosses a byte boundary.\<close>

definition Reader_Next :: "bytes \<Rightarrow> nat \<Rightarrow> BitmapReader \<Rightarrow> BitmapReader" where
  "Reader_Next bitmap p r =
     (if r_bit_offset r + 1 = 8 then
        r\<lparr> r_bit_offset := 0,
           r_byte_offset := r_byte_offset r + 1,
           r_position := r_position r + 1,
           r_current_byte :=
             (if r_position r + 1 < r_length r then bitmap (p + (r_byte_offset r + 1))
              else r_current_byte r) \<rparr>
      else r\<lparr> r_bit_offset := r_bit_offset r + 1, r_position := r_position r + 1 \<rparr>)"

record BitmapWriter =
  w_byte_offset :: nat
  w_bit_mask :: uint8
  w_position :: nat
  w_length :: nat
  w_current_byte :: uint8

text \<open>Modelled from the spec: the constructor of \<open>internal::BitmapWriter\<close> (bitmap_writer.h,
  not among the sources); section 4.2: a writer binds to (buf, bit_offset, length) and
  keeps a pending byte initialized from the destination byte, and a bit cursor.\<close>

definition BitmapWriter_new :: "bytes \<Rightarrow> nat \<Rightarrow> nat \<Rightarrow> nat \<Rightarrow> BitmapWriter" where
  "BitmapWriter_new bitmap p start_offset len =
     \<lparr> w_byte_offset = start_offset div 8,
       w_bit_mask = push_bit (start_offset mod 8) 1,
       w_position = 0,
       w_length = len,
       w_current_byte = (if 0 < len then bitmap (p + start_offset div 8) else 0) \<rparr>"

text \<open>Modelled from the spec: \<open>BitmapWriter::Set\<close> and \<open>BitmapWriter::Clear\<close> (not among the
  sources); section 4.2: \<open>set()\<close>/\<open>clear()\<close> mutate the pending byte at the cursor.\<close>

definition Writer_Set :: "BitmapWriter \<Rightarrow> BitmapWriter" where
  "Writer_Set w = w\<lparr> w_current_byte := w_current_byte w OR w_bit_mask w \<rparr>"

definition Writer_Clear :: "BitmapWriter \<Rightarrow> BitmapWriter" where
  "Writer_Clear w = w\<lparr> w_current_byte := w_current_byte w AND (w_bit_mask w XOR 0xFF) \<rparr>"

text \<open>Modelled from the spec: \<open>BitmapWriter::Next\<close> (not among the sources); section 4.2:
  \<open>next()\<close> advances and flushes when a byte is completed; the pending byte of the
  following destination byte is again initialized from the destination.\<close>

definition Writer_Next :: "bytes \<Rightarrow> nat \<Rightarrow> BitmapWriter \<Rightarrow> BitmapWriter \<times> bytes" where
  "Writer_Next bitmap p w =
     (if push_bit 1 (w_bit_mask w) = 0 then
        (let bitmap' = bitmap(p + w_byte_offset w := w_current_byte w)
         in (w\<lparr> w_bit_mask := 1,
                w_position := w_position w + 1,
                w_byte_offset := w_byte_offset w + 1,
                w_current_byte :=
                  (if w_position w + 1 < w_length w then bitmap' (p + (w_byte_offset w + 1))
                   else w_current_byte w) \<rparr>,
             bitmap'))
      else (w\<lparr> w_bit_mask := push_bit 1 (w_bit_mask w),
                w_position := w_position w + 1 \<rparr>, bitmap))"

text \<open>Modelled from the spec: \<open>BitmapWriter::Finish\<close> (not among the sources); section 4.2:
  a final \<open>finish()\<close> flushes the partial trailing byte.\<close>

definition Writer_Finish :: "bytes \<Rightarrow> nat \<Rightarrow> BitmapWriter \<Rightarrow> bytes" where
  "Writer_Finish bitmap p w =
     (if 0 < w_length w \<and> (w_bit_mask w \<noteq> 1 \<or> w_position w < w_length w)
      then bitmap(p + w_byte_offset w := w_current_byte w)
      else bitmap)"

section \<open>The transfer kernel: \<open>TransferBitmap\<close>, \<open>CopyBitmap\<close>, \<open>InvertBitmap\<close>\<close>

text \<open>\<open>const uint64_t dest_mask = (1U << dest_bit_offset) - 1\<close>: computed on 32 bits, then
  widened.\<close>

definition offset_mask :: "nat \<Rightarrow> uint64" where
  "offset_mask bit_offset = ucast ((push_bit bit_offset (1 :: uint32)) - 1)"

text \<open>The word loop of the general path (source lines 104 to 125); the first argument
  counts the iterations left of \<open>for (i = 0; i < n_words - 1; ++i)\<close>. It returns the
  advanced pointers and the destination memory.\<close>

fun transfer_words ::
  "nat \<Rightarrow> bool \<Rightarrow> bytes \<Rightarrow> nat \<Rightarrow> nat \<Rightarrow> nat \<Rightarrow> uint64 \<Rightarrow> nat \<Rightarrow> uint64 \<Rightarrow> bytes
     \<Rightarrow> nat \<times> nat \<times> bytes" where
  "transfer_words 0 invert_bits data bit_offset dest_bit_offset sp data_current dp
     dest_current dest = (sp, dp, dest)"
| "transfer_words (Suc k) invert_bits data bit_offset dest_bit_offset sp data_current dp
     dest_current dest =
     (let data_next = load_word data (sp + 8);
          word0 = shift_word data_current data_next bit_offset;
          word1 = (if invert_bits then NOT word0 else word0)
      in if dest_bit_offset \<noteq> 0 then
           (let dest_mask = offset_mask dest_bit_offset;
                word = push_bit dest_bit_offset word1 OR drop_bit (64 - dest_bit_offset) word1;
                dest_next0 = load_word dest (dp + 8);
                dest_current' = (dest_current AND dest_mask) OR (word AND NOT dest_mask);
                dest_next = (dest_next0 AND NOT dest_mask) OR (word AND dest_mask);
                dest' = write_word (write_word dest dp dest_current') (dp + 8) dest_next
            in transfer_words k invert_bits data bit_offset dest_bit_offset (sp + 8) data_next
                 (dp + 8) dest_next dest')
         else transfer_words k invert_bits data bit_offset dest_bit_offset (sp + 8) data_next
                (dp + 8) dest_current (write_word dest dp word1))"

text \<open>The bit-at-a-time loop of the general path (source lines 133 to 141).\<close>

function transfer_bits ::
  "bool \<Rightarrow> bytes \<Rightarrow> nat \<Rightarrow> nat \<Rightarrow> nat \<Rightarrow> nat \<Rightarrow> BitmapReader \<Rightarrow> BitmapWriter \<Rightarrow> bytes
     \<Rightarrow> BitmapWriter \<times> bytes" where
  "transfer_bits invert_bits data sp dp i len valid_reader valid_writer dest =
     (if i < len then
        (let w1 = (if invert_bits \<noteq> IsSet valid_reader then Writer_Set valid_writer
                   else Writer_Clear valid_writer);
             r' = Reader_Next data sp valid_reader;
             (w', dest') = Writer_Next dest dp w1
         in transfer_bits invert_bits data sp dp (i + 1) len r' w' dest')
      else (valid_writer, dest))"
  by pat_completeness auto
termination
  by (relation "measure (\<lambda>(invert_bits, data, sp, dp, i, len, r, w, dest). len - i)") auto

text \<open>The byte loop of the aligned path under \<open>invert_bits\<close> (source lines 152 to 154).\<close>

function invert_bytes :: "bytes \<Rightarrow> nat \<Rightarrow> nat \<Rightarrow> nat \<Rightarrow> nat \<Rightarrow> bytes \<Rightarrow> bytes" where
  "invert_bytes data byte_offset dp i num_bytes dest =
     (if i < num_bytes then
        invert_bytes data byte_offset dp (i + 1) num_bytes
          (dest(dp + i := NOT (data (byte_offset + i))))
      else dest)"
  by pat_completeness auto
termination
  by (relation "measure (\<lambda>(data, byte_offset, dp, i, num_bytes, dest). num_bytes - i)") auto

text \<open>The loop restoring the trailing bits (source lines 160 to 166); \<open>&trail\<close> is the
  one-byte memory holding \<open>trail\<close>.\<close>

function restore_trailing ::
  "uint8 \<Rightarrow> nat \<Rightarrow> nat \<Rightarrow> nat \<Rightarrow> nat \<Rightarrow> bytes \<Rightarrow> bytes" where
  "restore_trailing trail trailing_bits len dp i dest =
     (if i < trailing_bits then
        restore_trailing trail trailing_bits len dp (i + 1)
          (if GetBit (\<lambda>_. trail) 0 (i + 8 - trailing_bits) then SetBit dest dp (len + i)
           else ClearBit dest dp (len + i))
      else dest)"
  by pat_completeness auto
termination
  by (relation "measure (\<lambda>(trail, trailing_bits, len, dp, i, dest). trailing_bits - i)") auto

text \<open>\<open>template <bool invert_bits, bool restore_trailing_bits> void TransferBitmap(data,
  offset, length, dest_offset, dest)\<close>; the result is the destination memory after the
  call.\<close>

definition TransferBitmap ::
  "bool \<Rightarrow> bool \<Rightarrow> bytes \<Rightarrow> nat \<Rightarrow> nat \<Rightarrow> nat \<Rightarrow> bytes \<Rightarrow> bytes" where
  "TransferBitmap invert_bits restore_trailing_bits data offset len dest_offset dest =
     (let byte_offset = offset div 8;
          bit_offset = offset mod 8;
          dest_byte_offset = dest_offset div 8;
          dest_bit_offset = dest_offset mod 8;
          num_bytes = BytesForBits len;
          dp = dest_byte_offset
      in if bit_offset \<noteq> 0 \<or> dest_bit_offset \<noteq> 0 then
           (let sp = byte_offset;
                n_words = len div 64;
                (sp', dp', dest', len') =
                  (if 1 < n_words then
                     (let (sp1, dp1, dest1) =
                            transfer_words (n_words - 1) invert_bits data bit_offset
                              dest_bit_offset sp (load_word data sp) dp (load_word dest dp) dest
                      in (sp1, dp1, dest1, len - (n_words - 1) * 64))
                   else (sp, dp, dest, len));
                valid_reader = BitmapReader_new data sp' bit_offset len';
                valid_writer = BitmapWriter_new dest' dp' dest_bit_offset len';
                (w, dest'') =
                  transfer_bits invert_bits data sp' dp' 0 len' valid_reader valid_writer dest'
            in Writer_Finish dest'' dp' w)
         else
           (let trailing_bits = num_bytes * 8 - len;
                trail = (if trailing_bits \<noteq> 0 \<and> restore_trailing_bits
                         then dest (dp + (num_bytes - 1)) else 0);
                dest1 = (if invert_bits then invert_bytes data byte_offset dp 0 num_bytes dest
                         else memcpy dest dp data byte_offset num_bytes)
            in if restore_trailing_bits
               then restore_trailing trail trailing_bits len dp 0 dest1
               else dest1))"

definition CopyBitmap :: "bytes \<Rightarrow> nat \<Rightarrow> nat \<Rightarrow> bytes \<Rightarrow> nat \<Rightarrow> bool \<Rightarrow> bytes" where
  "CopyBitmap data offset len dest dest_offset restore_trailing_bits =
     (if restore_trailing_bits then TransferBitmap False True data offset len dest_offset dest
      else TransferBitmap False False data offset len dest_offset dest)"

definition InvertBitmap :: "bytes \<Rightarrow> nat \<Rightarrow> nat \<Rightarrow> bytes \<Rightarrow> nat \<Rightarrow> bytes" where
  "InvertBitmap data offset len dest dest_offset =
     TransferBitmap True True data offset len dest_offset dest"

section \<open>Freshly allocated bitmaps (arrow/buffer.h)\<close>

datatype status = OutOfMemory

text \<open>A memory pool, as far as these kernels see it: whether it serves an allocation
  of the given number of bytes.\<close>

type_synonym MemoryPool = "nat \<Rightarrow> bool"

record Buffer =
  b_size :: nat
  b_data :: bytes

text \<open>Modelled from the spec: \<open>AllocateEmptyBitmap\<close> (arrow/buffer.h, not among the
  sources); section 6: it returns a zero-initialized byte buffer of
  \<open>bytes_for_bits(bit_length)\<close> bytes, or an error.\<close>

definition AllocateEmptyBitmap :: "nat \<Rightarrow> MemoryPool \<Rightarrow> status + Buffer" where
  "AllocateEmptyBitmap len pool =
     (if pool (BytesForBits len)
      then Inr \<lparr> b_size = BytesForBits len, b_data = (\<lambda>_. 0) \<rparr>
      else Inl OutOfMemory)"

text \<open>The loop clearing the bits after \<open>length\<close> (source lines 183 to 186).\<close>

function clear_bits :: "nat \<Rightarrow> nat \<Rightarrow> bytes \<Rightarrow> bytes" where
  "clear_bits i end dest =
     (if i < end then clear_bits (i + 1) end (ClearBit dest 0 i) else dest)"
  by pat_completeness auto
termination
  by (relation "measure (\<lambda>(i, end, dest). end - i)") auto

text \<open>\<open>template <bool invert_bits> Result<std::shared_ptr<Buffer>> TransferBitmap(pool,
  data, offset, length)\<close>.\<close>

definition TransferBitmap_pool ::
  "bool \<Rightarrow> MemoryPool \<Rightarrow> bytes \<Rightarrow> nat \<Rightarrow> nat \<Rightarrow> status + Buffer" where
  "TransferBitmap_pool invert_bits pool data offset len =
     (case AllocateEmptyBitmap len pool of
        Inl e \<Rightarrow> Inl e
      | Inr buffer \<Rightarrow>
          (let dest = TransferBitmap invert_bits False data offset len 0 (b_data buffer);
               num_bytes = BytesForBits len;
               bits_to_zero = num_bytes * 8 - len
           in Inr (buffer\<lparr> b_data := clear_bits len (len + bits_to_zero) dest \<rparr>)))"

definition CopyBitmap_pool :: "MemoryPool \<Rightarrow> bytes \<Rightarrow> nat \<Rightarrow> nat \<Rightarrow> status + Buffer" where
  "CopyBitmap_pool pool data offset len = TransferBitmap_pool False pool data offset len"

definition InvertBitmap_pool :: "MemoryPool \<Rightarrow> bytes \<Rightarrow> nat \<Rightarrow> nat \<Rightarrow> status + Buffer" where
  "InvertBitmap_pool pool data offset len = TransferBitmap_pool True pool data offset len"

section \<open>Equality: \<open>BitmapEquals\<close>\<close>

text \<open>The two bit loops of \<open>BitmapEquals\<close> (source lines 224 to 229 and 273 to 278), which
  have the same body; \<open>True\<close> when the loop ends without returning false.\<close>

function equals_bits ::
  "bytes \<Rightarrow> nat \<Rightarrow> nat \<Rightarrow> bytes \<Rightarrow> nat \<Rightarrow> nat \<Rightarrow> nat \<Rightarrow> nat \<Rightarrow> bool" where
  "equals_bits left lp left_offset right rp right_offset i bit_length =
     (if i < bit_length then
        (if GetBit left lp (left_offset + i) \<noteq> GetBit right rp (right_offset + i) then False
         else equals_bits left lp left_offset right rp right_offset (i + 1) bit_length)
      else True)"
  by pat_completeness auto
termination
  by (relation "measure (\<lambda>(left, lp, lo, right, rp, ro, i, n). n - i)") auto

text \<open>The word loop of the unaligned case (source lines 253 to 267); the first argument
  counts the iterations left; \<open>None\<close> is the early \<open>return false\<close>, otherwise the
  advanced pointers are returned.\<close>

fun equals_words ::
  "nat \<Rightarrow> bytes \<Rightarrow> nat \<Rightarrow> bytes \<Rightarrow> nat \<Rightarrow> nat \<Rightarrow> uint64 \<Rightarrow> nat \<Rightarrow> uint64
     \<Rightarrow> (nat \<times> nat) option" where
  "equals_words 0 left left_offset right right_offset lp left_current rp right_current =
     Some (lp, rp)"
| "equals_words (Suc k) left left_offset right right_offset lp left_current rp right_current =
     (let left_next = load_word left (lp + 8);
          left_word = shift_word left_current left_next left_offset;
          right_next = load_word right (rp + 8);
          right_word = shift_word right_current right_next right_offset
      in if left_word \<noteq> right_word then None
         else equals_words k left left_offset right right_offset (lp + 8) left_next
                (rp + 8) right_next)"

definition BitmapEquals :: "bytes \<Rightarrow> nat \<Rightarrow> bytes \<Rightarrow> nat \<Rightarrow> nat \<Rightarrow> bool" where
  "BitmapEquals left left_offset right right_offset bit_length =
     (if left_offset mod 8 = 0 \<and> right_offset mod 8 = 0 then
        (let bytes_equal =
               memcmp_eq left (left_offset div 8) right (right_offset div 8) (bit_length div 8)
         in if \<not> bytes_equal then False
            else equals_bits left 0 left_offset right 0 right_offset
                   ((bit_length div 8) * 8) bit_length)
      else
        (let lp = left_offset div 8;
             rp = right_offset div 8;
             left_offset' = left_offset mod 8;
             right_offset' = right_offset mod 8;
             n_words = bit_length div 64
         in case (if 1 < n_words then
                    (case equals_words (n_words - 1) left left_offset' right right_offset'
                            lp (load_word left lp) rp (load_word right rp) of
                       None \<Rightarrow> None
                     | Some (lp', rp') \<Rightarrow> Some (lp', rp', bit_length - (n_words - 1) * 64))
                  else Some (lp, rp, bit_length)) of
              None \<Rightarrow> False
            | Some (lp', rp', bit_length') \<Rightarrow>
                equals_bits left lp' left_offset' right rp' right_offset' 0 bit_length'))"

section \<open>The binary combinators: \<open>BitmapAnd\<close>, \<open>BitmapOr\<close>, \<open>BitmapXor\<close>\<close>

text \<open>The template template argument \<open>BitOp\<close> is one of \<open>std::bit_and\<close>, \<open>std::bit_or\<close>,
  \<open>std::bit_xor\<close>, instantiated at \<open>uint8_t\<close> and at \<open>uint64_t\<close>; \<open>LogicalOp\<close> is a
  function object on \<open>bool\<close>.\<close>

datatype bit_functor = bit_and | bit_or | bit_xor

fun BitOp :: "bit_functor \<Rightarrow> 'a::len word \<Rightarrow> 'a word \<Rightarrow> 'a word" where
  "BitOp bit_and x y = x AND y"
| "BitOp bit_or x y = x OR y"
| "BitOp bit_xor x y = x XOR y"

type_synonym logical_functor = "bool \<Rightarrow> bool \<Rightarrow> bool"

definition logical_and :: logical_functor where
  "logical_and x y = (x \<and> y)"

definition logical_or :: logical_functor where
  "logical_or x y = (x \<or> y)"

definition bit_xor_bool :: logical_functor where
  "bit_xor_bool x y = (x \<noteq> y)"

text \<open>The byte loop of \<open>AlignedBitmapOp\<close> (source lines 296 to 298).\<close>

function aligned_bytes ::
  "bit_functor \<Rightarrow> bytes \<Rightarrow> nat \<Rightarrow> bytes \<Rightarrow> nat \<Rightarrow> nat \<Rightarrow> nat \<Rightarrow> nat \<Rightarrow> bytes \<Rightarrow> bytes" where
  "aligned_bytes op left lp right rp outp i nbytes out =
     (if i < nbytes then
        aligned_bytes op left lp right rp outp (i + 1) nbytes
          (out(outp + i := BitOp op (left (lp + i)) (right (rp + i))))
      else out)"
  by pat_completeness auto
termination
  by (relation "measure (\<lambda>(op, left, lp, right, rp, outp, i, nbytes, out). nbytes - i)") auto

definition AlignedBitmapOp ::
  "bit_functor \<Rightarrow> bytes \<Rightarrow> nat \<Rightarrow> bytes \<Rightarrow> nat \<Rightarrow> bytes \<Rightarrow> nat \<Rightarrow> nat \<Rightarrow> bytes" where
  "AlignedBitmapOp op left left_offset right right_offset out out_offset len =
     (let nbytes = BytesForBits (len + left_offset mod 8)
      in aligned_bytes op left (left_offset div 8) right (right_offset div 8)
           (out_offset div 8) 0 nbytes out)"

text \<open>The \<open>do ... while (nwords > 1)\<close> loop of \<open>UnalignedBitmapOp\<close> (source lines 330 to
  387). It returns the advanced pointers and the output memory.\<close>

function unaligned_words ::
  "bit_functor \<Rightarrow> bytes \<Rightarrow> nat \<Rightarrow> bytes \<Rightarrow> nat \<Rightarrow> nat \<Rightarrow> nat \<Rightarrow> nat \<Rightarrow> uint64 \<Rightarrow> nat \<Rightarrow> uint64
     \<Rightarrow> nat \<Rightarrow> uint64 \<Rightarrow> bytes \<Rightarrow> nat \<times> nat \<times> nat \<times> bytes" where
  "unaligned_words op left left_offset right right_offset out_offset nwords
     lp left_word0 rp right_word0 outp out_word0 out =
     (let left_word1 = load_word left (lp + 8);
          left_word = (if left_offset \<noteq> 0
                       then drop_bit left_offset left_word0
                              OR push_bit (64 - left_offset) left_word1
                       else left_word0);
          right_word1 = load_word right (rp + 8);
          right_word = (if right_offset \<noteq> 0
                        then drop_bit right_offset right_word0
                               OR push_bit (64 - right_offset) right_word1
                        else right_word0);
          out_word = BitOp op left_word right_word;
          (out_word0', out') =
            (if out_offset \<noteq> 0 then
               (let out_mask = offset_mask out_offset;
                    out_word' = push_bit out_offset out_word
                                  OR drop_bit (64 - out_offset) out_word;
                    out_word1 = load_word out (outp + 8);
                    out_word0' = (out_word0 AND out_mask) OR (out_word' AND NOT out_mask);
                    out_word1' = (out_word1 AND NOT out_mask) OR (out_word' AND out_mask)
                in (out_word1',
                    write_word (write_word out outp out_word0') (outp + 8) out_word1'))
             else (out_word0, write_word out outp out_word));
          nwords' = nwords - 1
      in if 1 < nwords' then
           unaligned_words op left left_offset right right_offset out_offset nwords'
             (lp + 8) left_word1 (rp + 8) right_word1 (outp + 8) out_word0' out'
         else (lp + 8, rp + 8, outp + 8, out'))"
  by pat_completeness auto
termination
  by (relation "measure (\<lambda>(op, left, lo, right, ro, oo, nwords, rest). nwords)") auto

text \<open>The \<open>while (length--)\<close> loop of \<open>UnalignedBitmapOp\<close> (source lines 396 to 405).\<close>

function unaligned_bits ::
  "logical_functor \<Rightarrow> bytes \<Rightarrow> nat \<Rightarrow> bytes \<Rightarrow> nat \<Rightarrow> nat \<Rightarrow> nat \<Rightarrow> BitmapReader \<Rightarrow> BitmapReader
     \<Rightarrow> BitmapWriter \<Rightarrow> bytes \<Rightarrow> BitmapWriter \<times> bytes" where
  "unaligned_bits lop left lp right rp outp len left_reader right_reader writer out =
     (if len \<noteq> 0 then
        (let w1 = (if lop (IsSet left_reader) (IsSet right_reader) then Writer_Set writer
                   else Writer_Clear writer);
             left_reader' = Reader_Next left lp left_reader;
             right_reader' = Reader_Next right rp right_reader;
             (writer', out') = Writer_Next out outp w1
         in unaligned_bits lop left lp right rp outp (len - 1) left_reader' right_reader'
              writer' out')
      else (writer, out))"
  by pat_completeness auto
termination
  by (relation "measure (\<lambda>(lop, left, lp, right, rp, outp, len, rest). len)") auto

definition UnalignedBitmapOp ::
  "bit_functor \<Rightarrow> logical_functor \<Rightarrow> bytes \<Rightarrow> nat \<Rightarrow> bytes \<Rightarrow> nat \<Rightarrow> bytes \<Rightarrow> nat \<Rightarrow> nat
     \<Rightarrow> bytes" where
  "UnalignedBitmapOp op lop left left_offset0 right right_offset0 out out_offset0 len =
     (let lp = left_offset0 div 8;
          rp = right_offset0 div 8;
          outp = out_offset0 div 8;
          left_offset = left_offset0 mod 8;
          right_offset = right_offset0 mod 8;
          out_offset = out_offset0 mod 8;
          min_offset = min left_offset (min right_offset out_offset);
          min_nbytes = BytesForBits (len + min_offset);
          nwords = min_nbytes div 8;
          (lp', rp', outp', out', len') =
            (if 1 < nwords then
               (let (lp1, rp1, outp1, out1) =
                      unaligned_words op left left_offset right right_offset out_offset nwords
                        lp (load_word left lp) rp (load_word right rp) outp (load_word out outp)
                        out
                in (lp1, rp1, outp1, out1, len - (nwords - 1) * 64))
             else (lp, rp, outp, out, len))
      in if len' \<noteq> 0 then
           (let left_reader = BitmapReader_new left lp' left_offset len';
                right_reader = BitmapReader_new right rp' right_offset len';
                writer = BitmapWriter_new out' outp' out_offset len';
                (w, out'') =
                  unaligned_bits lop left lp' right rp' outp' len' left_reader right_reader
                    writer out'
            in Writer_Finish out'' outp' w)
         else out')"

text \<open>The in-place \<open>BitmapOp\<close> (source lines 410 to 422).\<close>

definition BitmapOp ::
  "bit_functor \<Rightarrow> logical_functor \<Rightarrow> bytes \<Rightarrow> nat \<Rightarrow> bytes \<Rightarrow> nat \<Rightarrow> nat \<Rightarrow> nat \<Rightarrow> bytes
     \<Rightarrow> bytes" where
  "BitmapOp op lop left left_offset right right_offset len out_offset dest =
     (if out_offset mod 8 = left_offset mod 8 \<and> out_offset mod 8 = right_offset mod 8 then
        AlignedBitmapOp op left left_offset right right_offset dest out_offset len
      else
        UnalignedBitmapOp op lop left left_offset right right_offset dest out_offset len)"

text \<open>The allocating \<open>BitmapOp\<close> (source lines 424 to 434).\<close>

definition BitmapOp_pool ::
  "bit_functor \<Rightarrow> logical_functor \<Rightarrow> MemoryPool \<Rightarrow> bytes \<Rightarrow> nat \<Rightarrow> bytes \<Rightarrow> nat \<Rightarrow> nat \<Rightarrow> nat
     \<Rightarrow> status + Buffer" where
  "BitmapOp_pool op lop pool left left_offset right right_offset len out_offset =
     (let phys_bits = len + out_offset
      in case AllocateEmptyBitmap phys_bits pool of
           Inl e \<Rightarrow> Inl e
         | Inr out_buffer \<Rightarrow>
             Inr (out_buffer\<lparr> b_data :=
               BitmapOp op lop left left_offset right right_offset len out_offset
                 (b_data out_buffer) \<rparr>))"

definition BitmapAnd ::
  "bytes \<Rightarrow> nat \<Rightarrow> bytes \<Rightarrow> nat \<Rightarrow> nat \<Rightarrow> nat \<Rightarrow> bytes \<Rightarrow> bytes" where
  "BitmapAnd left left_offset right right_offset len out_offset out =
     BitmapOp bit_and logical_and left left_offset right right_offset len out_offset out"

definition BitmapOr ::
  "bytes \<Rightarrow> nat \<Rightarrow> bytes \<Rightarrow> nat \<Rightarrow> nat \<Rightarrow> nat \<Rightarrow> bytes \<Rightarrow> bytes" where
  "BitmapOr left left_offset right right_offset len out_offset out =
     BitmapOp bit_or logical_or left left_offset right right_offset len out_offset out"

definition BitmapXor ::
  "bytes \<Rightarrow> nat \<Rightarrow> bytes \<Rightarrow> nat \<Rightarrow> nat \<Rightarrow> nat \<Rightarrow> bytes \<Rightarrow> bytes" where
  "BitmapXor left left_offset right right_offset len out_offset out =
     BitmapOp bit_xor bit_xor_bool left left_offset right right_offset len out_offset out"

definition BitmapAnd_pool ::
  "MemoryPool \<Rightarrow> bytes \<Rightarrow> nat \<Rightarrow> bytes \<Rightarrow> nat \<Rightarrow> nat \<Rightarrow> nat \<Rightarrow> status + Buffer" where
  "BitmapAnd_pool pool left left_offset right right_offset len out_offset =
     BitmapOp_pool bit_and logical_and pool left left_offset right right_offset len out_offset"

definition BitmapOr_pool ::
  "MemoryPool \<Rightarrow> bytes \<Rightarrow> nat \<Rightarrow> bytes \<Rightarrow> nat \<Rightarrow> nat \<Rightarrow> nat \<Rightarrow> status + Buffer" where
  "BitmapOr_pool pool left left_offset right right_offset len out_offset =
     BitmapOp_pool bit_or logical_or pool left left_offset right right_offset len out_offset"

definition BitmapXor_pool ::
  "MemoryPool \<Rightarrow> bytes \<Rightarrow> nat \<Rightarrow> bytes \<Rightarrow> nat \<Rightarrow> nat \<Rightarrow> nat \<Rightarrow> status + Buffer" where
  "BitmapXor_pool pool left left_offset right right_offset len out_offset =
     BitmapOp_pool bit_xor bit_xor_bool pool left left_offset right right_offset len out_offset"

section \<open>Population count: \<open>CountSetBits\<close>\<close>

record BitmapWordAlignParams =
  leading_bits :: nat
  trailing_bits :: nat
  trailing_bit_offset :: nat
  aligned_start :: nat
  aligned_bits :: nat
  aligned_words :: nat

text \<open>Modelled from the spec: \<open>BitmapWordAlign\<close> (arrow/util/align_util.h, not among the
  sources); sections 2 and 3: given a view and a word size \<open>W\<close> it decomposes the span into
  leading bits (until the next \<open>W\<close>-aligned byte boundary), aligned words and trailing
  bits, with \<open>leading_bits + aligned_words * W * 8 + (bit_offset + length -
  trailing_bit_offset) = length\<close> and \<open>aligned_start\<close> \<open>W\<close>-byte aligned. The alignment
  is that of the machine address of \<open>data\<close>, the argument \<open>addr\<close>; \<open>aligned_start\<close> is the
  byte index from \<open>data\<close>.\<close>

definition BitmapWordAlign :: "nat \<Rightarrow> nat \<Rightarrow> nat \<Rightarrow> nat \<Rightarrow> BitmapWordAlignParams" where
  "BitmapWordAlign ALIGN_IN_BYTES addr bit_offset len =
     (let ALIGN_IN_BITS = ALIGN_IN_BYTES * 8;
          bit_addr = addr * 8 + bit_offset;
          aligned_bit_addr = ((bit_addr + ALIGN_IN_BITS - 1) div ALIGN_IN_BITS) * ALIGN_IN_BITS;
          leading = min len (aligned_bit_addr - bit_addr);
          words = (len - leading) div ALIGN_IN_BITS
      in \<lparr> leading_bits = leading,
           trailing_bits = len - leading - words * ALIGN_IN_BITS,
           trailing_bit_offset = bit_offset + leading + words * ALIGN_IN_BITS,
           aligned_start = (bit_offset + leading) div 8,
           aligned_bits = words * ALIGN_IN_BITS,
           aligned_words = words \<rparr>)"

text \<open>The two bit loops of \<open>CountSetBits\<close> (source lines 45 to 49 and 64 to 68).\<close>

function count_bits :: "bytes \<Rightarrow> nat \<Rightarrow> nat \<Rightarrow> int \<Rightarrow> int" where
  "count_bits data i end count =
     (if i < end then count_bits data (i + 1) end (if GetBit data 0 i then count + 1 else count)
      else count)"
  by pat_completeness auto
termination
  by (relation "measure (\<lambda>(data, i, end, count). end - i)") auto

text \<open>The popcount loop (source lines 57 to 59); the iterator is the byte index of the
  word it points to, so \<open>++iter\<close> adds eight.\<close>

function count_words :: "bytes \<Rightarrow> nat \<Rightarrow> nat \<Rightarrow> int \<Rightarrow> int" where
  "count_words data iter end count =
     (if iter < end then count_words data (iter + 8) end (count + int (PopCount (load_word data iter)))
      else count)"
  by pat_completeness auto
termination
  by (relation "measure (\<lambda>(data, iter, end, count). end - iter)") auto

text \<open>\<open>CountSetBits(data, bit_offset, length)\<close>; \<open>addr\<close> is the machine address of \<open>data\<close>.\<close>

definition CountSetBits :: "nat \<Rightarrow> bytes \<Rightarrow> nat \<Rightarrow> nat \<Rightarrow> int" where
  "CountSetBits addr data bit_offset len =
     (let p = BitmapWordAlign 8 addr bit_offset len;
          count1 = count_bits data bit_offset (bit_offset + leading_bits p) 0;
          count2 = (if 0 < aligned_words p then
                      (let u64_data = aligned_start p;
                           end = u64_data + 8 * aligned_words p
                       in count_words data u64_data end count1)
                    else count1)
      in count_bits data (trailing_bit_offset p) (bit_offset + len) count2)"

text \<open>The memory holding the listed bytes, followed by zero bytes; used to write down
  concrete buffers.\<close>

definition bytes_of :: "uint8 list \<Rightarrow> bytes" where
  "bytes_of xs = (\<lambda>i. if i < length xs then xs ! i else 0)"

section \<open>Bit-level view of a memory\<close>

text \<open>Bit \<open>j\<close> of a memory, counted from its first byte, least significant bit first.\<close>

definition bitat :: "bytes \<Rightarrow> nat \<Rightarrow> bool" where
  "bitat bs j = bit (bs (j div 8)) (j mod 8)"

text \<open>The cursor of a reader that has consumed \<open>k\<close> of the \<open>len\<close> bits bound at bit
  \<open>start\<close> from byte \<open>p\<close>: its cache holds the byte under the cursor while bits remain.\<close>

definition reader_at :: "bytes \<Rightarrow> nat \<Rightarrow> nat \<Rightarrow> nat \<Rightarrow> nat \<Rightarrow> BitmapReader \<Rightarrow> bool" where
  "reader_at data p start len k r =
     (r_byte_offset r = (start + k) div 8 \<and> r_bit_offset r = (start + k) mod 8 \<and>
      r_position r = k \<and> r_length r = len \<and>
      (k < len \<longrightarrow> r_current_byte r = data (p + (start + k) div 8)))"

text \<open>The cursor of a writer that has produced \<open>k\<close> of the \<open>len\<close> bits bound at bit
  \<open>start\<close>.\<close>

definition writer_at :: "nat \<Rightarrow> nat \<Rightarrow> nat \<Rightarrow> BitmapWriter \<Rightarrow> bool" where
  "writer_at start len k w =
     (w_byte_offset w = (start + k) div 8 \<and> w_bit_mask w = push_bit ((start + k) mod 8) 1 \<and>
      w_position w = k \<and> w_length w = len)"

text \<open>What a \<open>BitOp\<close> does to one bit position.\<close>

fun bool_op :: "bit_functor \<Rightarrow> bool \<Rightarrow> bool \<Rightarrow> bool" where
  "bool_op bit_and x y = (x \<and> y)"
| "bool_op bit_or x y = (x \<or> y)"
| "bool_op bit_xor x y = (x \<noteq> y)"

section \<open>Lemmas: bits of the primitives\<close>

lemma GetBit_bitat: "GetBit bits p i = bitat bits (8 * p + i)"
proof -
  have "(drop_bit n w AND 1 \<noteq> 0) = bit w n" for w :: uint8 and n
    by (simp add: bit_iff_odd_drop_bit and_one_eq mod_2_eq_odd)
  then show ?thesis
    by (simp add: GetBit_def bitat_def)
qed

lemma bytes_eqI: "(\<And>j. bitat a j = bitat b j) \<Longrightarrow> a = b"
proof (rule ext)
  fix i
  assume h: "\<And>j. bitat a j = bitat b j"
  show "a i = b i"
  proof (rule bit_word_eqI)
    fix n assume "n < LENGTH(8)"
    then have "n < 8" by simp
    with h [of "8 * i + n"] show "bit (a i) n = bit (b i) n"
      by (simp add: bitat_def)
  qed
qed

lemma bitpos_eq: "(j div 8 = p + i div 8 \<and> j mod 8 = i mod 8) = (j = 8 * p + (i::nat))"
proof
  assume a: "j div 8 = p + i div 8 \<and> j mod 8 = i mod 8"
  have "j = 8 * (j div 8) + j mod 8" by simp
  also have "\<dots> = 8 * p + (8 * (i div 8) + i mod 8)" using a by simp
  finally show "j = 8 * p + i" by simp
next
  assume "j = 8 * p + i"
  then show "j div 8 = p + i div 8 \<and> j mod 8 = i mod 8" by simp
qed

lemma bit_push_bit_1_u8: "bit (push_bit m (1::uint8)) n = (n = m \<and> m < 8)"
  by (auto simp: bit_exp_iff)

lemma bitat_SetBit: "bitat (SetBit bits p i) j = (j = 8 * p + i \<or> bitat bits j)"
  using bitpos_eq [of j p i]
  by (auto simp: SetBit_def bitat_def bit_or_iff bit_push_bit_1_u8 simp del: push_bit_of_1)

lemma bitat_ClearBit: "bitat (ClearBit bits p i) j = (j \<noteq> 8 * p + i \<and> bitat bits j)"
  using bitpos_eq [of j p i]
  by (auto simp: ClearBit_def bitat_def bit_and_iff bit_not_iff bit_push_bit_1_u8
      simp del: push_bit_of_1)

lemmas bit_horner_u8 = bit_horner_sum_uint_exp_iff [where 'a = 8, simplified]

lemma bit_load_word: "bit (load_word bs p) k = (k < 64 \<and> bitat bs (8 * p + k))"
proof (cases "k < 64")
  case True
  then have "k div 8 < 8" by simp
  moreover have "(8 * p + k) div 8 = p + k div 8" "(8 * p + k) mod 8 = k mod 8" by simp_all
  ultimately show ?thesis using True
    by (simp add: load_word_def word_rcat_def bit_word_of_int_iff bit_horner_u8 bitat_def
        del: upt_Suc)
next
  case False
  then show ?thesis
    using bit_imp_le_length [of "load_word bs p" k] by auto
qed

lemma bitat_write_word:
  "bitat (write_word bs p w) j =
     (if 8 * p \<le> j \<and> j < 8 * p + 64 then bit w (j - 8 * p) else bitat bs j)"
proof -
  have a: "(p \<le> j div 8 \<and> j div 8 < p + 8) = (8 * p \<le> j \<and> j < 8 * p + 64)" by arith
  have b: "8 * p \<le> j \<Longrightarrow> 8 * (j div 8 - p) + j mod 8 = j - 8 * p" by arith
  show ?thesis
    using a b by (auto simp: write_word_def bitat_def bit_ucast_iff bit_drop_bit_eq add.commute)
qed

lemma bit_shift_word:
  "s < 64 \<Longrightarrow> bit (shift_word c n s) k =
     (k < 64 \<and> (if k + s < 64 then bit c (k + s) else bit n (k + s - 64)))"
  apply (cases "k < 64")
   apply (simp_all add: shift_word_def bit_or_iff bit_drop_bit_eq bit_push_bit_iff)
   apply (auto simp: add.commute dest: bit_imp_le_length)
  done

lemma offset_mask_eq: "n < 32 \<Longrightarrow> offset_mask n = mask n"
  apply (simp add: offset_mask_def flip: mask_eq_exp_minus_1)
  apply (simp add: ucast_mask_eq)
  done

lemma Suc_div8_wrap: "(x::nat) mod 8 + 1 = 8 \<Longrightarrow> Suc x div 8 = x div 8 + 1 \<and> Suc x mod 8 = 0"
  by (simp add: div_Suc mod_Suc)

lemma Suc_div8_stay:
  "(x::nat) mod 8 + 1 \<noteq> 8 \<Longrightarrow> Suc x div 8 = x div 8 \<and> Suc x mod 8 = x mod 8 + 1"
  by (simp add: div_Suc mod_Suc)

lemma reader_at_new: "reader_at data p start len 0 (BitmapReader_new data p start len)"
  by (simp add: reader_at_def BitmapReader_new_def)

lemma reader_at_Next:
  "reader_at data p start len k r \<Longrightarrow> reader_at data p start len (Suc k) (Reader_Next data p r)"
  using Suc_div8_wrap [of "start + k"] Suc_div8_stay [of "start + k"]
  by (auto simp: reader_at_def Reader_Next_def)

lemma and_push_bit_1_u8: "(w AND push_bit n 1 \<noteq> 0) = bit w n" for w :: uint8
  by (rule bit_iff_and_push_bit_not_eq_0 [symmetric])

lemma reader_at_IsSet:
  "reader_at data p start len k r \<Longrightarrow> k < len \<Longrightarrow> IsSet r = bitat data (8 * p + (start + k))"
  by (simp add: reader_at_def IsSet_def bitat_def and_push_bit_1_u8 del: push_bit_of_1)

lemma writer_at_new: "writer_at start len 0 (BitmapWriter_new dest p start len)"
  by (simp add: writer_at_def BitmapWriter_new_def)

lemma Writer_Finish_new: "Writer_Finish dest p (BitmapWriter_new dest p start len) = dest"
  by (simp add: Writer_Finish_def BitmapWriter_new_def)

lemma push_bit_1_u8_zero: "n < 8 \<Longrightarrow> (push_bit 1 (push_bit n (1::uint8)) = 0) = (n = 7)"
proof -
  assume "n < 8"
  then have "n \<in> {0,1,2,3,4,5,6,7}" by auto
  then show ?thesis by auto
qed

lemma push_bit_1_u8_one: "n < 8 \<Longrightarrow> (push_bit n (1::uint8) = 1) = (n = 0)"
proof -
  assume "n < 8"
  then have "n \<in> {0,1,2,3,4,5,6,7}" by auto
  then show ?thesis by auto
qed

lemma xor_ff: "(x::uint8) XOR 0xFF = NOT x"
proof -
  have "(0xFF::uint8) = - 1" by simp
  then show ?thesis by (simp only: bit.xor_one_right)
qed

lemma bit_set_clear_byte:
  "n < 8 \<Longrightarrow> m < 8 \<Longrightarrow>
   bit (if b then cb OR push_bit n 1 else cb AND (push_bit n 1 XOR 0xFF)) m =
     (if m = n then b else bit (cb :: uint8) m)"
  by (simp add: xor_ff bit_or_iff bit_and_iff bit_not_iff bit_push_bit_1_u8 del: push_bit_of_1)

lemma writer_step:
  fixes b :: bool
  assumes wa: "writer_at start len k w" and kl: "k < len"
  defines "w1 \<equiv> (if b then Writer_Set w else Writer_Clear w)"
  shows "writer_at start len (Suc k) (fst (Writer_Next dest p w1))"
    and "bitat (Writer_Finish (snd (Writer_Next dest p w1)) p (fst (Writer_Next dest p w1))) j =
           (if j = 8 * p + (start + k) then b else bitat (Writer_Finish dest p w) j)"
proof -
  define n where "n = (start + k) mod 8"
  define bo where "bo = (start + k) div 8"
  have n8: "n < 8" by (simp add: n_def)
  have mask: "w_bit_mask w = push_bit n 1" and off: "w_byte_offset w = bo"
    and pos: "w_position w = k" and wl: "w_length w = len"
    using wa by (simp_all add: writer_at_def n_def bo_def)
  have mask1: "w_bit_mask w1 = push_bit n 1" and off1: "w_byte_offset w1 = bo"
    and pos1: "w_position w1 = k" and wl1: "w_length w1 = len"
    using mask off pos wl by (simp_all add: w1_def Writer_Set_def Writer_Clear_def)
  have cb1: "w_current_byte w1 =
      (if b then w_current_byte w OR push_bit n 1 else w_current_byte w AND (push_bit n 1 XOR 0xFF))"
    using mask by (simp add: w1_def Writer_Set_def Writer_Clear_def del: push_bit_of_1)
  have fin: "Writer_Finish dest p w = dest(p + bo := w_current_byte w)"
    using kl pos wl off by (simp add: Writer_Finish_def)
  have pe: "(j div 8 = p + bo \<and> j mod 8 = n) = (j = 8 * p + (start + k))"
    using bitpos_eq [of j p "start + k"] by (simp add: n_def bo_def)
  have jm: "j mod 8 < 8" by simp
  show "writer_at start len (Suc k) (fst (Writer_Next dest p w1))"
  proof (cases "n = 7")
    case True
    then have "Suc (start + k) div 8 = bo + 1 \<and> Suc (start + k) mod 8 = 0"
      using Suc_div8_wrap [of "start + k"] by (simp add: n_def bo_def)
    then show ?thesis
      using True n8 mask1 off1 pos1 wl1 push_bit_1_u8_zero [of n]
      by (simp add: writer_at_def Writer_Next_def Let_def del: push_bit_of_1)
  next
    case False
    then have "Suc (start + k) div 8 = bo \<and> Suc (start + k) mod 8 = n + 1"
      using Suc_div8_stay [of "start + k"] n8 by (simp add: n_def bo_def)
    then show ?thesis
      using False n8 mask1 off1 pos1 wl1 push_bit_1_u8_zero [of n]
      by (simp add: writer_at_def Writer_Next_def Let_def push_bit_push_bit del: push_bit_of_1)
  qed
  show "bitat (Writer_Finish (snd (Writer_Next dest p w1)) p (fst (Writer_Next dest p w1))) j =
           (if j = 8 * p + (start + k) then b else bitat (Writer_Finish dest p w) j)"
  proof (cases "n = 7")
    case True
    have "Writer_Finish (snd (Writer_Next dest p w1)) p (fst (Writer_Next dest p w1))
        = dest(p + bo := w_current_byte w1)"
      using True n8 mask1 off1 pos1 wl1 push_bit_1_u8_zero [of n]
      by (auto simp add: Writer_Finish_def Writer_Next_def Let_def simp del: push_bit_of_1)
    then show ?thesis
      using pe n8 jm bit_set_clear_byte [of n "j mod 8" b "w_current_byte w"]
      by (auto simp: fin bitat_def cb1 simp del: push_bit_of_1)
  next
    case False
    have "push_bit (Suc n) (1::uint8) \<noteq> 1"
      using push_bit_1_u8_one [of "Suc n"] False n8 by simp
    then have "Writer_Finish (snd (Writer_Next dest p w1)) p (fst (Writer_Next dest p w1))
        = dest(p + bo := w_current_byte w1)"
      using False n8 mask1 off1 pos1 wl1 push_bit_1_u8_zero [of n] kl
      by (auto simp add: Writer_Finish_def Writer_Next_def Let_def push_bit_push_bit simp del: push_bit_of_1)
    then show ?thesis
      using pe n8 jm bit_set_clear_byte [of n "j mod 8" b "w_current_byte w"]
      by (auto simp: fin bitat_def cb1 simp del: push_bit_of_1)
  qed
qed

declare transfer_bits.simps [simp del]

lemma transfer_bits_step:
  "i < len \<Longrightarrow> transfer_bits iv data sp dp i len r w dest =
     transfer_bits iv data sp dp (Suc i) len (Reader_Next data sp r)
       (fst (Writer_Next dest dp (if iv \<noteq> IsSet r then Writer_Set w else Writer_Clear w)))
       (snd (Writer_Next dest dp (if iv \<noteq> IsSet r then Writer_Set w else Writer_Clear w)))"
  by (subst transfer_bits.simps) (simp add: Let_def case_prod_beta)

lemma transfer_bits_stop:
  "\<not> i < len \<Longrightarrow> transfer_bits iv data sp dp i len r w dest = (w, dest)"
  by (subst transfer_bits.simps) simp

lemma transfer_bits_correct:
  assumes "reader_at data sp sb len i r" and "writer_at db len i w" and "i \<le> len"
  shows "bitat (Writer_Finish (snd (transfer_bits iv data sp dp i len r w dest)) dp
                 (fst (transfer_bits iv data sp dp i len r w dest))) j =
     (if 8 * dp + (db + i) \<le> j \<and> j < 8 * dp + (db + len)
      then iv \<noteq> bitat data (8 * sp + (sb + (j - (8 * dp + db))))
      else bitat (Writer_Finish dest dp w) j)"
  using assms
proof (induction "len - i" arbitrary: i r w dest)
  case 0
  then show ?case by (auto simp: transfer_bits_stop)
next
  case (Suc n)
  then have il: "i < len" by simp
  define b where "b = (iv \<noteq> IsSet r)"
  define w1 where "w1 = (if b then Writer_Set w else Writer_Clear w)"
  define wn where "wn = Writer_Next dest dp w1"
  have bb: "b = (iv \<noteq> bitat data (8 * sp + (sb + i)))"
    using reader_at_IsSet [OF Suc.prems(1) il] by (simp add: b_def)
  have r': "reader_at data sp sb len (Suc i) (Reader_Next data sp r)"
    using Suc.prems(1) by (rule reader_at_Next)
  have w': "writer_at db len (Suc i) (fst wn)"
    unfolding wn_def w1_def using Suc.prems(2) il by (rule writer_step(1))
  have fin: "bitat (Writer_Finish (snd wn) dp (fst wn)) j =
           (if j = 8 * dp + (db + i) then b else bitat (Writer_Finish dest dp w) j)"
    unfolding wn_def w1_def using Suc.prems(2) il by (rule writer_step(2))
  have n: "n = len - Suc i" using Suc.hyps(2) by simp
  have il': "Suc i \<le> len" using il by simp
  have unf: "transfer_bits iv data sp dp i len r w dest =
      transfer_bits iv data sp dp (Suc i) len (Reader_Next data sp r) (fst wn) (snd wn)"
    using transfer_bits_step [OF il] by (simp add: wn_def w1_def b_def)
  show ?case
    unfolding unf
    using Suc.hyps(1) [OF n r' w' il', of "snd wn"] fin bb il
    by auto
qed

section \<open>Claims settled by evaluation and by unfolding\<close>

lemma memcpy_0: "memcpy dest dp src sp 0 = dest"
  by (rule ext) (auto simp: memcpy_def)

lemma TransferBitmap_len_0: "TransferBitmap iv rs data off 0 doff dest = dest"
  by (simp add: TransferBitmap_def Let_def BytesForBits_def memcpy_0 transfer_bits_stop
      Writer_Finish_def BitmapWriter_new_def)

text \<open>C6, as the specification states it: the in-place OR of \<open>left = [0x0A]\<close> and
  \<open>right = [0x05]\<close>, both at offset 0, of length 4 at output offset 4 into \<open>out = [0xF0]\<close>
  leaves \<open>out[0] = 0xFF\<close>. The code does not: the byte stays \<open>0xF0\<close>, since the low
  nibble of \<open>0xF0\<close> is zero and is preserved.\<close>

theorem BitmapOr_scenario_not_0xFF:
  "BitmapOr (bytes_of [0x0A]) 0 (bytes_of [0x05]) 0 4 4 (bytes_of [0xF0]) 0 \<noteq> 0xFF"
  by code_simp

text \<open>C6, amended: the same call writes bits 4 to 7 as 1111, preserves the low nibble
  of \<open>out\<close> (which is 0000), and afterwards \<open>out[0] = 0xF0\<close>.\<close>

theorem BitmapOr_scenario:
  "map (GetBit (BitmapOr (bytes_of [0x0A]) 0 (bytes_of [0x05]) 0 4 4 (bytes_of [0xF0])) 0)
     [4, 5, 6, 7] = [True, True, True, True] \<and>
   map (GetBit (BitmapOr (bytes_of [0x0A]) 0 (bytes_of [0x05]) 0 4 4 (bytes_of [0xF0])) 0)
     [0, 1, 2, 3] = map (GetBit (bytes_of [0xF0]) 0) [0, 1, 2, 3] \<and>
   BitmapOr (bytes_of [0x0A]) 0 (bytes_of [0x05]) 0 4 4 (bytes_of [0xF0]) 0 = 0xF0"
  by code_simp

text \<open>C10: for length 0 and arbitrary buffers and offsets, \<open>CountSetBits\<close> returns 0,
  \<open>BitmapEquals\<close> returns true, and the in-place \<open>CopyBitmap\<close> and \<open>InvertBitmap\<close> return
  the destination memory unchanged, whatever the alignment of the offsets.\<close>

theorem zero_length_operations:
  "CountSetBits addr data bit_offset 0 = 0 \<and>
   BitmapEquals left left_offset right right_offset 0 \<and>
   CopyBitmap data offset 0 dest dest_offset restore_trailing_bits = dest \<and>
   InvertBitmap data offset 0 dest dest_offset = dest"
  by (simp add: CountSetBits_def BitmapWordAlign_def BitmapEquals_def memcmp_eq_def
      CopyBitmap_def InvertBitmap_def TransferBitmap_len_0 Let_def)

section \<open>Lemmas: the word-parallel shift-merge\<close>

lemma bit_shifted_load:
  assumes "sb < 8"
  shows "bit (shift_word (load_word data sp) (load_word data (sp + 8)) sb) k =
           (k < 64 \<and> bitat data (8 * sp + (sb + k)))"
proof (cases "k + sb < 64")
  case True
  then have "bit (load_word data sp) (k + sb) = bitat data (8 * sp + (sb + k))"
    by (simp add: bit_load_word add.commute)
  then show ?thesis
    using assms True by (simp add: bit_shift_word)
next
  case False
  have e: "8 * (sp + 8) + (k + sb - 64) = 8 * sp + (sb + k)" using False by simp
  have "bit (load_word data (sp + 8)) (k + sb - 64) =
          (k + sb - 64 < 64 \<and> bitat data (8 * (sp + 8) + (k + sb - 64)))"
    by (rule bit_load_word)
  then have "k < 64 \<Longrightarrow> bit (load_word data (sp + 8)) (k + sb - 64) = bitat data (8 * sp + (sb + k))"
    unfolding e using assms by auto
  then show ?thesis
    using assms False by (simp add: bit_shift_word cong: conj_cong)
qed

lemma load_word_write_word: "load_word (write_word bs p w) p = w"
  by (rule bit_word_eqI) (simp add: bit_load_word bitat_write_word)

lemma bit_rotated:
  fixes w :: uint64
  assumes "0 < db" "db < 64" "m < 64"
  shows "bit (push_bit db w OR drop_bit (64 - db) w) m =
           (if db \<le> m then bit w (m - db) else bit w (m + 64 - db))"
  using assms
  by (auto simp: bit_or_iff bit_push_bit_iff bit_drop_bit_eq add.commute dest: bit_imp_le_length)

lemma bit_keep_low:
  fixes a b :: uint64
  assumes "db < 8" "m < 64"
  shows "bit ((a AND offset_mask db) OR (b AND NOT (offset_mask db))) m =
           (if m < db then bit a m else bit b m)"
  using assms by (auto simp: offset_mask_eq bit_or_iff bit_and_iff bit_not_iff bit_mask_iff)

lemma bit_keep_high:
  fixes a b :: uint64
  assumes "db < 8" "m < 64"
  shows "bit ((a AND NOT (offset_mask db)) OR (b AND offset_mask db)) m =
           (if m < db then bit b m else bit a m)"
  using assms by (auto simp: offset_mask_eq bit_or_iff bit_and_iff bit_not_iff bit_mask_iff)

lemma split_store:
  assumes "0 < db" "db < 8"
  shows "bitat (write_word
                 (write_word dest dp
                    ((load_word dest dp AND offset_mask db) OR
                     ((push_bit db w OR drop_bit (64 - db) w) AND NOT (offset_mask db))))
                 (dp + 8)
                 ((load_word dest (dp + 8) AND NOT (offset_mask db)) OR
                  ((push_bit db w OR drop_bit (64 - db) w) AND offset_mask db))) j =
         (if 8 * dp + db \<le> j \<and> j < 8 * dp + db + 64 then bit w (j - (8 * dp + db))
          else bitat dest j)"
proof -
  have db64: "db < 64" using assms by simp
  consider (lo) "j < 8 * dp" | (first) "8 * dp \<le> j" "j < 8 * dp + 64"
    | (second) "8 * dp + 64 \<le> j" "j < 8 * dp + 128" | (hi) "8 * dp + 128 \<le> j"
    by linarith
  then show ?thesis
  proof cases
    case lo
    then show ?thesis using assms by (simp add: bitat_write_word)
  next
    case first
    then have m: "j - 8 * dp < 64" by simp
    have e: "8 * dp + (j - 8 * dp) = j" using first by simp
    show ?thesis
      using assms first
      by (auto simp: bitat_write_word bit_keep_low [OF assms(2) m]
          bit_rotated [OF assms(1) db64 m] bit_load_word e)
  next
    case second
    then have m: "j - (8 * dp + 64) < 64" by simp
    have e: "8 * (dp + 8) + (j - (8 * dp + 64)) = j" using second by simp
    have e2: "db \<le> j - (8 * dp + 64) \<Longrightarrow> \<not> j < 8 * dp + db + 64"
      using second by linarith
    have e3: "\<not> db \<le> j - (8 * dp + 64) \<Longrightarrow> j - (8 * dp + 64) + 64 - db = j - (8 * dp + db)"
      using second by simp
    show ?thesis
      using assms second e2 e3
      by (auto simp: bitat_write_word bit_keep_high [OF assms(2) m]
          bit_rotated [OF assms(1) db64 m] bit_load_word e)
  next
    case hi
    then show ?thesis using assms by (simp add: bitat_write_word)
  qed
qed

lemma bit_maybe_inverted:
  assumes "sb < 8" "m < 64"
  shows "bit (if iv then NOT (shift_word (load_word data sp) (load_word data (sp + 8)) sb)
              else shift_word (load_word data sp) (load_word data (sp + 8)) sb) m =
           (iv \<noteq> bitat data (8 * sp + (sb + m)))"
  using assms by (simp add: bit_not_iff bit_shifted_load)

lemma transfer_words_correct:
  assumes "sb < 8" and "db < 8"
    and "data_current = load_word data sp"
    and "db \<noteq> 0 \<Longrightarrow> dest_current = load_word dest dp"
  shows "fst (transfer_words k iv data sb db sp data_current dp dest_current dest) = sp + 8 * k \<and>
         fst (snd (transfer_words k iv data sb db sp data_current dp dest_current dest)) = dp + 8 * k \<and>
         (\<forall>j. bitat (snd (snd (transfer_words k iv data sb db sp data_current dp dest_current dest))) j =
           (if 8 * dp + db \<le> j \<and> j < 8 * dp + db + 64 * k
            then iv \<noteq> bitat data (8 * sp + (sb + (j - (8 * dp + db))))
            else bitat dest j))"
  using assms(3,4)
proof (induction k arbitrary: sp data_current dp dest_current dest)
  case 0
  then show ?case by auto
next
  case (Suc k)
  define data_next where "data_next = load_word data (sp + 8)"
  define word1 where "word1 =
    (if iv then NOT (shift_word data_current data_next sb) else shift_word data_current data_next sb)"
  have w1: "bit word1 m = (iv \<noteq> bitat data (8 * sp + (sb + m)))" if "m < 64" for m
    unfolding word1_def data_next_def Suc.prems(1)
    using assms(1) that by (rule bit_maybe_inverted)
  show ?case
  proof (cases "db = 0")
    case True
    define dest' where "dest' = write_word dest dp word1"
    have unf: "transfer_words (Suc k) iv data sb db sp data_current dp dest_current dest =
        transfer_words k iv data sb db (sp + 8) data_next (dp + 8) dest_current dest'"
      by (simp add: True Let_def data_next_def word1_def dest'_def)
    have d': "bitat dest' j =
        (if 8 * dp \<le> j \<and> j < 8 * dp + 64 then iv \<noteq> bitat data (8 * sp + (sb + (j - 8 * dp)))
         else bitat dest j)" for j
    proof (cases "8 * dp \<le> j \<and> j < 8 * dp + 64")
      case True
      then have "j - 8 * dp < 64" by arith
      from w1 [OF this] show ?thesis
        using True by (simp only: dest'_def bitat_write_word if_True)
    next
      case False
      then show ?thesis
        by (simp only: dest'_def bitat_write_word if_False)
    qed
    have IH: "fst (transfer_words k iv data sb db (sp + 8) data_next (dp + 8) dest_current dest') = sp + 8 + 8 * k \<and>
         fst (snd (transfer_words k iv data sb db (sp + 8) data_next (dp + 8) dest_current dest')) = dp + 8 + 8 * k \<and>
         (\<forall>j. bitat (snd (snd (transfer_words k iv data sb db (sp + 8) data_next (dp + 8) dest_current dest'))) j =
           (if 8 * (dp + 8) + db \<le> j \<and> j < 8 * (dp + 8) + db + 64 * k
            then iv \<noteq> bitat data (8 * (sp + 8) + (sb + (j - (8 * (dp + 8) + db))))
            else bitat dest' j))"
      by (rule Suc.IH) (simp_all add: data_next_def True)
    have e: "8 * dp + 64 \<le> j \<Longrightarrow> 8 * (sp + 8) + (sb + (j - (8 * dp + 64))) = 8 * sp + (sb + (j - 8 * dp))" for j
      by simp
    show ?thesis
      unfolding unf using IH d' e by (auto simp: True)
  next
    case False
    then have db0: "0 < db" by simp
    define dest_mask where "dest_mask = offset_mask db"
    define word where "word = push_bit db word1 OR drop_bit (64 - db) word1"
    define dest_next where "dest_next = (load_word dest (dp + 8) AND NOT dest_mask) OR (word AND dest_mask)"
    define dest' where "dest' = write_word (write_word dest dp
        ((dest_current AND dest_mask) OR (word AND NOT dest_mask))) (dp + 8) dest_next"
    have unf: "transfer_words (Suc k) iv data sb db sp data_current dp dest_current dest =
        transfer_words k iv data sb db (sp + 8) data_next (dp + 8) dest_next dest'"
      by (simp add: False Let_def data_next_def word1_def dest'_def dest_next_def word_def dest_mask_def)
    have dc: "dest_current = load_word dest dp" using Suc.prems(2) False by simp
    have d': "bitat dest' j =
        (if 8 * dp + db \<le> j \<and> j < 8 * dp + db + 64
         then iv \<noteq> bitat data (8 * sp + (sb + (j - (8 * dp + db))))
         else bitat dest j)" for j
    proof (cases "8 * dp + db \<le> j \<and> j < 8 * dp + db + 64")
      case True
      then have "j - (8 * dp + db) < 64" by arith
      from w1 [OF this] show ?thesis
        unfolding dest'_def dest_next_def word_def dest_mask_def dc
        using True by (simp only: split_store [OF db0 assms(2)] if_True)
    next
      case False
      then show ?thesis
        unfolding dest'_def dest_next_def word_def dest_mask_def dc
        by (simp only: split_store [OF db0 assms(2)] if_False)
    qed
    have dn: "dest_next = load_word dest' (dp + 8)"
      by (simp add: dest'_def load_word_write_word)
    have IH: "fst (transfer_words k iv data sb db (sp + 8) data_next (dp + 8) dest_next dest') = sp + 8 + 8 * k \<and>
         fst (snd (transfer_words k iv data sb db (sp + 8) data_next (dp + 8) dest_next dest')) = dp + 8 + 8 * k \<and>
         (\<forall>j. bitat (snd (snd (transfer_words k iv data sb db (sp + 8) data_next (dp + 8) dest_next dest'))) j =
           (if 8 * (dp + 8) + db \<le> j \<and> j < 8 * (dp + 8) + db + 64 * k
            then iv \<noteq> bitat data (8 * (sp + 8) + (sb + (j - (8 * (dp + 8) + db))))
            else bitat dest' j))"
      by (rule Suc.IH) (simp_all add: data_next_def dn)
    have e: "8 * dp + 64 + db \<le> j \<Longrightarrow>
        8 * (sp + 8) + (sb + (j - (8 * dp + 64 + db))) = 8 * sp + (sb + (j - (8 * dp + db)))" for j
      by simp
    show ?thesis
      unfolding unf using IH d' e by (auto simp: add.assoc)
  qed
qed

section \<open>Lemmas: the transfer kernel\<close>

lemma TransferBitmap_general:
  assumes "offset mod 8 \<noteq> 0 \<or> dest_offset mod 8 \<noteq> 0"
  shows "TransferBitmap iv rs data offset len dest_offset dest =
    (let k = (if 1 < len div 64 then len div 64 - 1 else 0);
         tw = transfer_words k iv data (offset mod 8) (dest_offset mod 8) (offset div 8)
                (load_word data (offset div 8)) (dest_offset div 8)
                (load_word dest (dest_offset div 8)) dest;
         sp' = fst tw; dp' = fst (snd tw); dest' = snd (snd tw); len' = len - k * 64;
         tb = transfer_bits iv data sp' dp' 0 len'
                (BitmapReader_new data sp' (offset mod 8) len')
                (BitmapWriter_new dest' dp' (dest_offset mod 8) len') dest'
     in Writer_Finish (snd tb) dp' (fst tb))"
  using assms by (auto simp add: TransferBitmap_def Let_def case_prod_beta)

lemma transfer_tail_bits:
  "bitat (Writer_Finish
            (snd (transfer_bits iv data sp dp 0 len (BitmapReader_new data sp sb len)
                    (BitmapWriter_new dest dp db len) dest)) dp
            (fst (transfer_bits iv data sp dp 0 len (BitmapReader_new data sp sb len)
                    (BitmapWriter_new dest dp db len) dest))) j =
     (if 8 * dp + db \<le> j \<and> j < 8 * dp + db + len
      then iv \<noteq> bitat data (8 * sp + (sb + (j - (8 * dp + db))))
      else bitat dest j)"
  using transfer_bits_correct [OF reader_at_new writer_at_new le0,
      where iv = iv and data = data and sp = sp and sb = sb and dp = dp and db = db
        and dest = dest and len = len and j = j]
  by (simp add: Writer_Finish_new add.assoc)

lemma TransferBitmap_general_bits:
  assumes "offset mod 8 \<noteq> 0 \<or> dest_offset mod 8 \<noteq> 0"
  shows "bitat (TransferBitmap iv rs data offset len dest_offset dest) j =
     (if dest_offset \<le> j \<and> j < dest_offset + len
      then iv \<noteq> bitat data (offset + (j - dest_offset))
      else bitat dest j)"
proof -
  define sb where "sb = offset mod 8"
  define db where "db = dest_offset mod 8"
  define sp where "sp = offset div 8"
  define dp where "dp = dest_offset div 8"
  define k where "k = (if 1 < len div 64 then len div 64 - 1 else 0)"
  define tw where "tw = transfer_words k iv data sb db sp (load_word data sp) dp (load_word dest dp) dest"
  have sb8: "sb < 8" and db8: "db < 8" by (simp_all add: sb_def db_def)
  have off: "offset = 8 * sp + sb" and doff: "dest_offset = 8 * dp + db"
    by (simp_all add: sb_def db_def sp_def dp_def)
  have kl: "64 * k \<le> len"
    by (simp add: k_def) arith
  have tw: "fst tw = sp + 8 * k \<and> fst (snd tw) = dp + 8 * k \<and>
         (\<forall>j. bitat (snd (snd tw)) j =
           (if 8 * dp + db \<le> j \<and> j < 8 * dp + db + 64 * k
            then iv \<noteq> bitat data (8 * sp + (sb + (j - (8 * dp + db))))
            else bitat dest j))"
    unfolding tw_def by (rule transfer_words_correct [OF sb8 db8]) simp_all
  have res: "TransferBitmap iv rs data offset len dest_offset dest =
      Writer_Finish
        (snd (transfer_bits iv data (fst tw) (fst (snd tw)) 0 (len - k * 64)
                (BitmapReader_new data (fst tw) sb (len - k * 64))
                (BitmapWriter_new (snd (snd tw)) (fst (snd tw)) db (len - k * 64)) (snd (snd tw))))
        (fst (snd tw))
        (fst (transfer_bits iv data (fst tw) (fst (snd tw)) 0 (len - k * 64)
                (BitmapReader_new data (fst tw) sb (len - k * 64))
                (BitmapWriter_new (snd (snd tw)) (fst (snd tw)) db (len - k * 64)) (snd (snd tw))))"
    unfolding TransferBitmap_general [OF assms] Let_def tw_def k_def sb_def db_def sp_def dp_def
    by (rule refl)
  have tw1: "fst tw = sp + 8 * k" and tw2: "fst (snd tw) = dp + 8 * k"
    and tw3: "\<And>j. bitat (snd (snd tw)) j =
           (if 8 * dp + db \<le> j \<and> j < 8 * dp + db + 64 * k
            then iv \<noteq> bitat data (8 * sp + (sb + (j - (8 * dp + db))))
            else bitat dest j)"
    using tw by simp_all
  have tail: "bitat (TransferBitmap iv rs data offset len dest_offset dest) j =
     (if 8 * (dp + 8 * k) + db \<le> j \<and> j < 8 * (dp + 8 * k) + db + (len - k * 64)
      then iv \<noteq> bitat data (8 * (sp + 8 * k) + (sb + (j - (8 * (dp + 8 * k) + db))))
      else bitat (snd (snd tw)) j)"
    unfolding res transfer_tail_bits tw1 tw2 by (rule refl)
  consider (a) "j < dest_offset" | (b) "dest_offset \<le> j" "j < dest_offset + 64 * k"
    | (c) "dest_offset + 64 * k \<le> j" "j < dest_offset + len" | (d) "dest_offset + len \<le> j"
    by linarith
  then show ?thesis
  proof cases
    case a
    have c1: "\<not> (8 * (dp + 8 * k) + db \<le> j \<and> j < 8 * (dp + 8 * k) + db + (len - k * 64))"
      using a doff by simp
    have c2: "\<not> (8 * dp + db \<le> j \<and> j < 8 * dp + db + 64 * k)"
      using a doff by simp
    have c3: "\<not> (dest_offset \<le> j \<and> j < dest_offset + len)"
      using a by simp
    show ?thesis
      unfolding tail by (simp only: c1 c2 c3 if_False tw3 simp_thms)
  next
    case b
    have c1: "\<not> (8 * (dp + 8 * k) + db \<le> j \<and> j < 8 * (dp + 8 * k) + db + (len - k * 64))"
      using b doff by simp
    have c2: "8 * dp + db \<le> j \<and> j < 8 * dp + db + 64 * k"
      using b doff by simp
    have c3: "dest_offset \<le> j \<and> j < dest_offset + len"
      using b kl by simp
    have ix: "8 * sp + (sb + (j - (8 * dp + db))) = offset + (j - dest_offset)"
      using off doff by simp
    show ?thesis
      unfolding tail by (simp only: c1 c2 c3 if_False if_True tw3 ix simp_thms)
  next
    case c
    have c1: "8 * (dp + 8 * k) + db \<le> j \<and> j < 8 * (dp + 8 * k) + db + (len - k * 64)"
      using c doff kl by simp
    have c3: "dest_offset \<le> j \<and> j < dest_offset + len"
      using c by simp
    have ix: "8 * (sp + 8 * k) + (sb + (j - (8 * (dp + 8 * k) + db))) = offset + (j - dest_offset)"
      using off doff c by simp
    show ?thesis
      unfolding tail by (simp only: c1 c3 if_True ix simp_thms)
  next
    case d
    have c1: "\<not> (8 * (dp + 8 * k) + db \<le> j \<and> j < 8 * (dp + 8 * k) + db + (len - k * 64))"
      using d doff kl by simp
    have c2: "\<not> (8 * dp + db \<le> j \<and> j < 8 * dp + db + 64 * k)"
      using d doff kl by simp
    have c3: "\<not> (dest_offset \<le> j \<and> j < dest_offset + len)"
      using d by simp
    show ?thesis
      unfolding tail by (simp only: c1 c2 c3 if_False tw3 simp_thms)
  qed
qed

declare invert_bytes.simps [simp del] restore_trailing.simps [simp del] clear_bits.simps [simp del]

lemma byte_range_bits:
  "(dp \<le> j div 8 \<and> j div 8 < dp + n) = (8 * dp \<le> j \<and> j < 8 * dp + 8 * (n::nat))"
  by arith

lemma sub_bytes: "8 * dp \<le> j \<Longrightarrow> j - 8 * dp = 8 * (j div 8 - dp) + j mod (8::nat)"
proof -
  assume a: "8 * dp \<le> j"
  have "j = 8 * (j div 8) + j mod 8" by simp
  moreover have "dp \<le> j div 8" using a by simp
  ultimately show ?thesis
    by (metis add_diff_assoc2 diff_mult_distrib2 mult_le_mono2)
qed

lemma bitat_shift_bytes:
  "8 * dp \<le> j \<Longrightarrow> bitat src (8 * sp + (j - 8 * dp)) = bit (src (sp + (j div 8 - dp))) (j mod 8)"
proof -
  assume a: "8 * dp \<le> j"
  have "8 * sp + (j - 8 * dp) = 8 * (sp + (j div 8 - dp)) + j mod 8"
    by (simp add: sub_bytes [OF a])
  then have "(8 * sp + (j - 8 * dp)) div 8 = sp + (j div 8 - dp)"
     and "(8 * sp + (j - 8 * dp)) mod 8 = j mod 8"
    by simp_all
  then show ?thesis by (simp add: bitat_def)
qed

lemma bitat_memcpy:
  "bitat (memcpy dest dp src sp n) j =
     (if 8 * dp \<le> j \<and> j < 8 * dp + 8 * n then bitat src (8 * sp + (j - 8 * dp))
      else bitat dest j)"
proof (cases "8 * dp \<le> j \<and> j < 8 * dp + 8 * n")
  case True
  then have r: "dp \<le> j div 8 \<and> j div 8 < dp + n" by (simp only: byte_range_bits)
  from True have a: "8 * dp \<le> j" by simp
  show ?thesis
    by (simp only: True if_True simp_thms bitat_shift_bytes [OF a])
      (simp add: bitat_def memcpy_def r)
next
  case False
  then have nr: "\<not> (dp \<le> j div 8 \<and> j div 8 < dp + n)"
    using byte_range_bits [of dp j n] by blast
  show ?thesis
    by (simp only: False if_False) (simp add: memcpy_def bitat_def nr)
qed

lemma invert_bytes_eq:
  "invert_bytes data byte_offset dp i num_bytes dest =
     (\<lambda>x. if dp + i \<le> x \<and> x < dp + num_bytes then NOT (data (byte_offset + (x - dp)))
          else dest x)"
proof (induction "num_bytes - i" arbitrary: i dest)
  case 0
  then show ?case
    by (subst invert_bytes.simps) (auto intro!: ext)
next
  case (Suc n)
  then have il: "i < num_bytes" and n: "n = num_bytes - Suc i" by simp_all
  show ?case
    by (subst invert_bytes.simps) (use il in \<open>auto simp: Suc.hyps(1) [OF n] intro!: ext\<close>)
qed

lemma bitat_invert_bytes:
  "bitat (invert_bytes data byte_offset dp 0 n dest) j =
     (if 8 * dp \<le> j \<and> j < 8 * dp + 8 * n then \<not> bitat data (8 * byte_offset + (j - 8 * dp))
      else bitat dest j)"
proof (cases "8 * dp \<le> j \<and> j < 8 * dp + 8 * n")
  case True
  then have r: "dp \<le> j div 8 \<and> j div 8 < dp + n" by (simp only: byte_range_bits)
  from True have a: "8 * dp \<le> j" by simp
  show ?thesis
    by (simp only: True if_True simp_thms bitat_shift_bytes [OF a])
      (simp add: bitat_def invert_bytes_eq r bit_not_iff)
next
  case False
  then have nr: "\<not> (dp \<le> j div 8 \<and> j div 8 < dp + n)"
    using byte_range_bits [of dp j n] by blast
  show ?thesis
    by (simp only: False if_False) (simp add: invert_bytes_eq bitat_def nr)
qed

lemma GetBit_const: "GetBit (\<lambda>_. trail) 0 m = bit trail (m mod 8)"
  by (simp add: GetBit_bitat bitat_def)

lemma bitat_restore_trailing:
  "bitat (restore_trailing trail tb len dp i dest) j =
     (if 8 * dp + (len + i) \<le> j \<and> j < 8 * dp + (len + tb)
      then bit trail ((j - (8 * dp + len) + 8 - tb) mod 8)
      else bitat dest j)"
proof (induction "tb - i" arbitrary: i dest)
  case 0
  then show ?case
    by (subst restore_trailing.simps) auto
next
  case (Suc n)
  then have il: "i < tb" and n: "n = tb - Suc i" by simp_all
  define dest1 where "dest1 =
    (if GetBit (\<lambda>_. trail) 0 (i + 8 - tb) then SetBit dest dp (len + i)
     else ClearBit dest dp (len + i))"
  have unf: "restore_trailing trail tb len dp i dest = restore_trailing trail tb len dp (Suc i) dest1"
    by (subst restore_trailing.simps) (simp add: il dest1_def)
  have d1: "bitat dest1 j =
      (if j = 8 * dp + (len + i) then bit trail ((i + 8 - tb) mod 8) else bitat dest j)" for j
    by (simp add: dest1_def bitat_SetBit bitat_ClearBit GetBit_const)
  have IH: "bitat (restore_trailing trail tb len dp (Suc i) dest1) j =
     (if 8 * dp + (len + Suc i) \<le> j \<and> j < 8 * dp + (len + tb)
      then bit trail ((j - (8 * dp + len) + 8 - tb) mod 8)
      else bitat dest1 j)"
    by (rule Suc.hyps(1) [OF n])
  show ?case
  proof (cases "j = 8 * dp + (len + i)")
    case True
    have c1: "\<not> (8 * dp + (len + Suc i) \<le> j \<and> j < 8 * dp + (len + tb))"
      using True by simp
    have c2: "8 * dp + (len + i) \<le> j \<and> j < 8 * dp + (len + tb)"
      using True il by simp
    have e: "j - (8 * dp + len) + 8 - tb = i + 8 - tb"
      using True by simp
    show ?thesis
      unfolding unf IH
      by (simp only: c1 c2 if_False if_True e simp_thms) (simp add: d1 True)
  next
    case False
    have c: "(8 * dp + (len + Suc i) \<le> j \<and> j < 8 * dp + (len + tb)) =
             (8 * dp + (len + i) \<le> j \<and> j < 8 * dp + (len + tb))"
      using False by auto
    show ?thesis
      unfolding unf IH by (simp only: c d1 False if_False)
  qed
qed

lemma bitat_clear_bits:
  "bitat (clear_bits i end dest) j = (if i \<le> j \<and> j < end then False else bitat dest j)"
proof (induction "end - i" arbitrary: i dest)
  case 0
  then show ?case
    by (subst clear_bits.simps) auto
next
  case (Suc n)
  then have il: "i < end" and n: "n = end - Suc i" by simp_all
  show ?case
    by (subst clear_bits.simps) (use il in \<open>auto simp: Suc.hyps(1) [OF n] bitat_ClearBit\<close>)
qed

lemma BytesForBits_bounds: "len \<le> 8 * BytesForBits len \<and> 8 * BytesForBits len < len + 8"
  unfolding BytesForBits_def by arith

lemma TransferBitmap_aligned:
  assumes "offset mod 8 = 0" and "dest_offset mod 8 = 0"
  shows "TransferBitmap iv rs data offset len dest_offset dest =
    (let num_bytes = BytesForBits len;
         dp = dest_offset div 8;
         trailing = num_bytes * 8 - len;
         trail = (if trailing \<noteq> 0 \<and> rs then dest (dp + (num_bytes - 1)) else 0);
         dest1 = (if iv then invert_bytes data (offset div 8) dp 0 num_bytes dest
                  else memcpy dest dp data (offset div 8) num_bytes)
     in if rs then restore_trailing trail trailing len dp 0 dest1 else dest1)"
  using assms by (simp add: TransferBitmap_def Let_def)

lemma TransferBitmap_aligned_bits:
  assumes "offset mod 8 = 0" and "dest_offset mod 8 = 0"
  shows "bitat (TransferBitmap iv rs data offset len dest_offset dest) j =
     (if dest_offset \<le> j \<and> j < dest_offset + (if rs then len else 8 * BytesForBits len)
      then iv \<noteq> bitat data (offset + (j - dest_offset))
      else bitat dest j)"
proof -
  define nb where "nb = BytesForBits len"
  define dp where "dp = dest_offset div 8"
  define bo where "bo = offset div 8"
  define tb where "tb = nb * 8 - len"
  define trail where "trail = (if tb \<noteq> 0 \<and> rs then dest (dp + (nb - 1)) else 0)"
  define dest1 where "dest1 = (if iv then invert_bytes data bo dp 0 nb dest
                  else memcpy dest dp data bo nb)"
  have off: "offset = 8 * bo" and doff: "dest_offset = 8 * dp"
    using assms by (auto simp: bo_def dp_def)
  have nb1: "len \<le> 8 * nb" and nb2: "8 * nb < len + 8"
    using BytesForBits_bounds [of len] by (simp_all add: nb_def)
  have lt: "len + tb = 8 * nb" using nb1 by (simp add: tb_def)
  have d1: "bitat dest1 j =
     (if 8 * dp \<le> j \<and> j < 8 * dp + 8 * nb then iv \<noteq> bitat data (8 * bo + (j - 8 * dp))
      else bitat dest j)" for j
    by (simp add: dest1_def bitat_invert_bytes bitat_memcpy)
  have res: "TransferBitmap iv rs data offset len dest_offset dest =
      (if rs then restore_trailing trail tb len dp 0 dest1 else dest1)"
    unfolding TransferBitmap_aligned [OF assms] Let_def
    by (simp add: nb_def dp_def bo_def tb_def trail_def dest1_def)
  show ?thesis
  proof (cases rs)
    case False
    show ?thesis
      unfolding res by (simp only: False if_False d1 off doff nb_def)
  next
    case True
    have rt: "bitat (restore_trailing trail tb len dp 0 dest1) j =
       (if 8 * dp + len \<le> j \<and> j < 8 * dp + 8 * nb
        then bit trail ((j - (8 * dp + len) + 8 - tb) mod 8)
        else bitat dest1 j)"
      unfolding bitat_restore_trailing by (simp add: lt)
    consider (a) "j < 8 * dp" | (b) "8 * dp \<le> j" "j < 8 * dp + len"
      | (c) "8 * dp + len \<le> j" "j < 8 * dp + 8 * nb" | (d) "8 * dp + 8 * nb \<le> j"
      by linarith
    then show ?thesis
    proof cases
      case a
      then show ?thesis
        unfolding res using True nb1 by (simp add: rt d1 doff)
    next
      case b
      have c1: "\<not> (8 * dp + len \<le> j \<and> j < 8 * dp + 8 * nb)" using b by simp
      have c2: "8 * dp \<le> j \<and> j < 8 * dp + 8 * nb" using b nb1 by simp
      have c3: "8 * dp \<le> j \<and> j < 8 * dp + len"
        using b by simp
      show ?thesis
        unfolding res
        by (simp only: True if_True rt d1 if_not_P [OF c1] if_P [OF c2] if_P [OF c3] off doff)
    next
      case c
      have tb0: "tb \<noteq> 0" using c lt by simp
      have nb0: "0 < nb" using c by simp
      have jd: "j div 8 = dp + (nb - 1)"
      proof -
        have "8 * (dp + (nb - 1)) \<le> j" using c nb2 nb0 by simp
        moreover have "j < 8 * (dp + (nb - 1)) + 8" using c nb0 by simp
        ultimately show ?thesis by (simp add: div_nat_eqI mult.commute)
      qed
      have "j - (8 * dp + len) + 8 - tb = j - 8 * (dp + (nb - 1))"
        using c lt nb0 by simp
      also have "\<dots> mod 8 = j mod 8"
        using jd by (metis minus_mult_div_eq_mod mod_mod_trivial)
      finally have jm: "(j - (8 * dp + len) + 8 - tb) mod 8 = j mod 8" .
      have c1: "8 * dp + len \<le> j \<and> j < 8 * dp + 8 * nb" using c by simp
      have c3: "\<not> (8 * dp \<le> j \<and> j < 8 * dp + len)"
        using c by simp
      have tr: "trail = dest (j div 8)" using tb0 True jd by (simp add: trail_def)
      show ?thesis
        unfolding res
        by (simp only: True if_True rt if_P [OF c1] if_not_P [OF c3] jm off doff)
          (simp only: tr bitat_def)
    next
      case d
      then show ?thesis
        unfolding res using True nb1 by (simp add: rt d1 doff)
    qed
  qed
qed

lemma TransferBitmap_bits:
  "bitat (TransferBitmap iv rs data offset len dest_offset dest) j =
     (if dest_offset \<le> j \<and>
         j < dest_offset +
               (if offset mod 8 = 0 \<and> dest_offset mod 8 = 0 \<and> \<not> rs
                then 8 * BytesForBits len else len)
      then iv \<noteq> bitat data (offset + (j - dest_offset))
      else bitat dest j)"
proof (cases "offset mod 8 = 0 \<and> dest_offset mod 8 = 0")
  case True
  then have a: "offset mod 8 = 0" and b: "dest_offset mod 8 = 0" by simp_all
  show ?thesis
    by (cases rs)
      (simp_all only: TransferBitmap_aligned_bits [OF a b] a b simp_thms if_True if_False)
next
  case False
  then have g: "offset mod 8 \<noteq> 0 \<or> dest_offset mod 8 \<noteq> 0" by simp
  have n: "\<not> (offset mod 8 = 0 \<and> dest_offset mod 8 = 0 \<and> \<not> rs)" 
  proof
    assume "offset mod 8 = 0 \<and> dest_offset mod 8 = 0 \<and> \<not> rs"
    then have "offset mod 8 = 0 \<and> dest_offset mod 8 = 0" by (elim conjE) (rule conjI)
    with False show False ..
  qed
  show ?thesis
    by (simp only: TransferBitmap_general_bits [OF g] if_not_P [OF n])
qed

lemma TransferBitmap_range:
  "i < len \<Longrightarrow>
   GetBit (TransferBitmap iv rs data offset len dest_offset dest) 0 (dest_offset + i) =
     (iv \<noteq> GetBit data 0 (offset + i))"
  using BytesForBits_bounds [of len]
  by (simp add: GetBit_bitat TransferBitmap_bits)

lemma TransferBitmap_frame:
  assumes "rs \<or> offset mod 8 \<noteq> 0 \<or> dest_offset mod 8 \<noteq> 0"
    and "j < dest_offset \<or> dest_offset + len \<le> j"
  shows "GetBit (TransferBitmap iv rs data offset len dest_offset dest) 0 j = GetBit dest 0 j"
  using assms by (auto simp add: GetBit_bitat TransferBitmap_bits)

lemma TransferBitmap_frame_bytes:
  assumes "j < dest_offset \<or> dest_offset + 8 * BytesForBits len \<le> j"
  shows "GetBit (TransferBitmap iv rs data offset len dest_offset dest) 0 j = GetBit dest 0 j"
  using assms BytesForBits_bounds [of len]
  by (auto simp add: GetBit_bitat TransferBitmap_bits)

section \<open>Lemmas: equality\<close>

declare equals_bits.simps [simp del]

lemma equals_bits_iff:
  "equals_bits left lp lo right rp ro i n =
     (\<forall>k. i \<le> k \<and> k < n \<longrightarrow> bitat left (8 * lp + (lo + k)) = bitat right (8 * rp + (ro + k)))"
proof (induction "n - i" arbitrary: i)
  case 0
  then show ?case
    by (subst equals_bits.simps) auto
next
  case (Suc m)
  then have il: "i < n" and m: "m = n - Suc i" by simp_all
  have split: "(\<forall>k. i \<le> k \<and> k < n \<longrightarrow> P k) = (P i \<and> (\<forall>k. Suc i \<le> k \<and> k < n \<longrightarrow> P k))" for P
    using il by (metis Suc_leI le_eq_less_or_eq less_le_trans lessI less_imp_le_nat)
  show ?case
    apply (subst equals_bits.simps)
    apply (subst split)
    using il apply (simp add: Suc.hyps(1) [OF m] GetBit_bitat)
    done
qed

lemma word_eq_shifted_iff:
  assumes "lo < 8" and "ro < 8"
  shows "(shift_word (load_word left lp) (load_word left (lp + 8)) lo =
          shift_word (load_word right rp) (load_word right (rp + 8)) ro) =
         (\<forall>m<64. bitat left (8 * lp + (lo + m)) = bitat right (8 * rp + (ro + m)))"
proof
  assume e: "shift_word (load_word left lp) (load_word left (lp + 8)) lo =
          shift_word (load_word right rp) (load_word right (rp + 8)) ro"
  show "\<forall>m<64. bitat left (8 * lp + (lo + m)) = bitat right (8 * rp + (ro + m))"
  proof (intro allI impI)
    fix m :: nat assume m: "m < 64"
    have "bit (shift_word (load_word left lp) (load_word left (lp + 8)) lo) m =
          bit (shift_word (load_word right rp) (load_word right (rp + 8)) ro) m"
      by (simp only: e)
    then show "bitat left (8 * lp + (lo + m)) = bitat right (8 * rp + (ro + m))"
      by (simp only: bit_shifted_load [OF assms(1)] bit_shifted_load [OF assms(2)] m simp_thms)
  qed
next
  assume a: "\<forall>m<64. bitat left (8 * lp + (lo + m)) = bitat right (8 * rp + (ro + m))"
  show "shift_word (load_word left lp) (load_word left (lp + 8)) lo =
          shift_word (load_word right rp) (load_word right (rp + 8)) ro"
  proof (rule bit_word_eqI)
    fix m assume "m < LENGTH(64)"
    then have m: "m < 64" by simp
    with a have "bitat left (8 * lp + (lo + m)) = bitat right (8 * rp + (ro + m))" by blast
    then show "bit (shift_word (load_word left lp) (load_word left (lp + 8)) lo) m =
          bit (shift_word (load_word right rp) (load_word right (rp + 8)) ro) m"
      by (simp only: bit_shifted_load [OF assms(1)] bit_shifted_load [OF assms(2)] m simp_thms)
  qed
qed

lemma equals_words_iff:
  assumes "lo < 8" and "ro < 8"
    and "left_current = load_word left lp" and "right_current = load_word right rp"
  shows "equals_words k left lo right ro lp left_current rp right_current =
     (if \<forall>m<64 * k. bitat left (8 * lp + (lo + m)) = bitat right (8 * rp + (ro + m))
      then Some (lp + 8 * k, rp + 8 * k) else None)"
  using assms(3,4)
proof (induction k arbitrary: lp rp left_current right_current)
  case 0
  then show ?case by simp
next
  case (Suc k)
  define P where "P m = (bitat left (8 * lp + (lo + m)) = bitat right (8 * rp + (ro + m)))" for m
  have w: "(shift_word left_current (load_word left (lp + 8)) lo =
          shift_word right_current (load_word right (rp + 8)) ro) = (\<forall>m<64. P m)"
    unfolding Suc.prems P_def by (rule word_eq_shifted_iff [OF assms(1,2)])
  have IH: "equals_words k left lo right ro (lp + 8) (load_word left (lp + 8)) (rp + 8)
              (load_word right (rp + 8)) =
     (if \<forall>m<64 * k. bitat left (8 * (lp + 8) + (lo + m)) = bitat right (8 * (rp + 8) + (ro + m))
      then Some (lp + 8 + 8 * k, rp + 8 + 8 * k) else None)"
    by (rule Suc.IH) simp_all
  have sh: "(bitat left (8 * (lp + 8) + (lo + m)) = bitat right (8 * (rp + 8) + (ro + m))) = P (64 + m)" for m
    by (simp add: P_def add.assoc add.left_commute)
  have split: "(\<forall>m<64 * Suc k. P m) = ((\<forall>m<64. P m) \<and> (\<forall>m<64 * k. P (64 + m)))"
  proof
    assume a: "\<forall>m<64 * Suc k. P m"
    show "(\<forall>m<64. P m) \<and> (\<forall>m<64 * k. P (64 + m))"
      using a by simp
  next
    assume a: "(\<forall>m<64. P m) \<and> (\<forall>m<64 * k. P (64 + m))"
    show "\<forall>m<64 * Suc k. P m"
    proof (intro allI impI)
      fix m assume m: "m < 64 * Suc k"
      show "P m"
      proof (cases "m < 64")
        case True
        with a show ?thesis by blast
      next
        case False
        then have "m - 64 < 64 * k" and "64 + (m - 64) = m" using m by simp_all
        with a show ?thesis by metis
      qed
    qed
  qed
  show ?case
    apply (simp only: equals_words.simps Let_def w IH sh)
    apply (fold P_def)
    apply (simp only: split)
    apply auto
    done
qed

lemma byte_eq_iff_bits: "(a = b) = (\<forall>m<8. bit a m = bit b m)" for a b :: uint8
proof
  assume "a = b" then show "\<forall>m<8. bit a m = bit b m" by simp
next
  assume h: "\<forall>m<8. bit a m = bit b m"
  show "a = b"
    by (rule bit_word_eqI) (use h in simp)
qed

lemma memcmp_eq_iff:
  "memcmp_eq left lp right rp n =
     (\<forall>j<8 * n. bitat left (8 * lp + j) = bitat right (8 * rp + j))"
proof -
  have m: "memcmp_eq left lp right rp n = (\<forall>k<n. left (lp + k) = right (rp + k))"
    by (auto simp: memcmp_eq_def)
  show ?thesis
  proof
    assume a: "memcmp_eq left lp right rp n"
    show "\<forall>j<8 * n. bitat left (8 * lp + j) = bitat right (8 * rp + j)"
    proof (intro allI impI)
      fix j assume "j < 8 * n"
      then have "j div 8 < n" by simp
      with a m have "left (lp + j div 8) = right (rp + j div 8)" by blast
      then show "bitat left (8 * lp + j) = bitat right (8 * rp + j)"
        by (simp add: bitat_def)
    qed
  next
    assume a: "\<forall>j<8 * n. bitat left (8 * lp + j) = bitat right (8 * rp + j)"
    have "left (lp + k) = right (rp + k)" if "k < n" for k
      unfolding byte_eq_iff_bits
    proof (intro allI impI)
      fix b :: nat assume b: "b < 8"
      then have "8 * k + b < 8 * n" using that by simp
      with a have "bitat left (8 * lp + (8 * k + b)) = bitat right (8 * rp + (8 * k + b))" by blast
      moreover have "(8 * q + (8 * k + b)) div 8 = q + k" "(8 * q + (8 * k + b)) mod 8 = b" for q
        using b by simp_all
      ultimately show "bit (left (lp + k)) b = bit (right (rp + k)) b"
        by (simp add: bitat_def)
    qed
    then show "memcmp_eq left lp right rp n" using m by blast
  qed
qed

lemma BitmapEquals_general:
  assumes "\<not> (left_offset mod 8 = 0 \<and> right_offset mod 8 = 0)"
  shows "BitmapEquals left left_offset right right_offset bit_length =
    (let k = (if 1 < bit_length div 64 then bit_length div 64 - 1 else 0)
     in case equals_words k left (left_offset mod 8) right (right_offset mod 8)
               (left_offset div 8) (load_word left (left_offset div 8))
               (right_offset div 8) (load_word right (right_offset div 8)) of
          None \<Rightarrow> False
        | Some (lp', rp') \<Rightarrow>
            equals_bits left lp' (left_offset mod 8) right rp' (right_offset mod 8) 0
              (bit_length - k * 64))"
  using assms by (auto simp add: BitmapEquals_def Let_def split: option.splits)

lemma BitmapEquals_iff:
  "BitmapEquals left left_offset right right_offset bit_length =
     (\<forall>i<bit_length. bitat left (left_offset + i) = bitat right (right_offset + i))"
proof (cases "left_offset mod 8 = 0 \<and> right_offset mod 8 = 0")
  case True
  define lp where "lp = left_offset div 8"
  define rp where "rp = right_offset div 8"
  define P where "P i = (bitat left (8 * lp + i) = bitat right (8 * rp + i))" for i
  have lo: "left_offset = 8 * lp" and ro: "right_offset = 8 * rp"
    using True by (auto simp: lp_def rp_def)
  have res: "BitmapEquals left left_offset right right_offset bit_length =
      ((\<forall>j<8 * (bit_length div 8). P j) \<and> (\<forall>k. bit_length div 8 * 8 \<le> k \<and> k < bit_length \<longrightarrow> P k))"
    using True
    by (simp add: BitmapEquals_def Let_def memcmp_eq_iff equals_bits_iff P_def lo ro
        flip: lp_def rp_def)
  have le: "8 * (bit_length div 8) \<le> bit_length" by simp
  have "((\<forall>j<8 * (bit_length div 8). P j) \<and> (\<forall>k. bit_length div 8 * 8 \<le> k \<and> k < bit_length \<longrightarrow> P k))
      = (\<forall>i<bit_length. P i)"
    using le by (metis (no_types, lifting) le_less_trans less_le_trans mult.commute not_le_imp_less not_less)
  then show ?thesis
    unfolding res by (simp add: P_def lo ro)
next
  case False
  define lp where "lp = left_offset div 8"
  define rp where "rp = right_offset div 8"
  define lb where "lb = left_offset mod 8"
  define rb where "rb = right_offset mod 8"
  define k where "k = (if 1 < bit_length div 64 then bit_length div 64 - 1 else 0)"
  define P where "P i = (bitat left (8 * lp + (lb + i)) = bitat right (8 * rp + (rb + i)))" for i
  have lb8: "lb < 8" and rb8: "rb < 8" by (simp_all add: lb_def rb_def)
  have lo: "left_offset = 8 * lp + lb" and ro: "right_offset = 8 * rp + rb"
    by (simp_all add: lp_def rp_def lb_def rb_def)
  have kl: "64 * k \<le> bit_length" by (simp add: k_def) arith
  have ew: "equals_words k left lb right rb lp (load_word left lp) rp (load_word right rp) =
      (if \<forall>m<64 * k. P m then Some (lp + 8 * k, rp + 8 * k) else None)"
    unfolding P_def by (rule equals_words_iff [OF lb8 rb8]) simp_all
  have eb: "equals_bits left (lp + 8 * k) lb right (rp + 8 * k) rb 0 (bit_length - k * 64) =
      (\<forall>i<bit_length - k * 64. P (64 * k + i))"
    by (simp add: equals_bits_iff P_def add.assoc add.left_commute)
  have res: "BitmapEquals left left_offset right right_offset bit_length =
      ((\<forall>m<64 * k. P m) \<and> (\<forall>i<bit_length - k * 64. P (64 * k + i)))"
    unfolding BitmapEquals_general [OF False] Let_def
    apply (fold lp_def rp_def lb_def rb_def k_def)
    apply (simp add: ew eb)
    done
  have "((\<forall>m<64 * k. P m) \<and> (\<forall>i<bit_length - k * 64. P (64 * k + i))) = (\<forall>i<bit_length. P i)"
  proof
    assume a: "(\<forall>m<64 * k. P m) \<and> (\<forall>i<bit_length - k * 64. P (64 * k + i))"
    show "\<forall>i<bit_length. P i"
    proof (intro allI impI)
      fix i assume i: "i < bit_length"
      show "P i"
      proof (cases "i < 64 * k")
        case True
        with a show ?thesis by blast
      next
        case False
        then have "i - 64 * k < bit_length - k * 64" and "64 * k + (i - 64 * k) = i"
          using i by simp_all
        with a show ?thesis by metis
      qed
    qed
  next
    assume a: "\<forall>i<bit_length. P i"
    show "(\<forall>m<64 * k. P m) \<and> (\<forall>i<bit_length - k * 64. P (64 * k + i))"
      using a kl by auto
  qed
  then show ?thesis
    unfolding res by (simp add: P_def lo ro add.assoc)
qed

section \<open>Lemmas: the binary combinators\<close>

declare aligned_bytes.simps [simp del] unaligned_words.simps [simp del]
  unaligned_bits.simps [simp del]

lemma bit_BitOp: "bit (BitOp op a b) m = bool_op op (bit a m) (bit b m)"
  by (cases op) (simp_all add: bit_and_iff bit_or_iff bit_xor_iff)

lemma aligned_bytes_eq:
  "aligned_bytes op left lp right rp outp i nbytes out =
     (\<lambda>x. if outp + i \<le> x \<and> x < outp + nbytes
          then BitOp op (left (lp + (x - outp))) (right (rp + (x - outp)))
          else out x)"
proof (induction "nbytes - i" arbitrary: i out)
  case 0
  then show ?case
    by (subst aligned_bytes.simps) (auto intro!: ext)
next
  case (Suc n)
  then have il: "i < nbytes" and n: "n = nbytes - Suc i" by simp_all
  show ?case
    by (subst aligned_bytes.simps) (use il in \<open>auto simp: Suc.hyps(1) [OF n] intro!: ext\<close>)
qed

lemma AlignedBitmapOp_bits:
  "bitat (AlignedBitmapOp op left left_offset right right_offset out out_offset len) j =
     (if 8 * (out_offset div 8) \<le> j \<and>
         j < 8 * (out_offset div 8) + 8 * BytesForBits (len + left_offset mod 8)
      then bool_op op (bitat left (8 * (left_offset div 8) + (j - 8 * (out_offset div 8))))
             (bitat right (8 * (right_offset div 8) + (j - 8 * (out_offset div 8))))
      else bitat out j)"
proof -
  define n where "n = BytesForBits (len + left_offset mod 8)"
  define outp where "outp = out_offset div 8"
  show ?thesis
  proof (cases "8 * outp \<le> j \<and> j < 8 * outp + 8 * n")
    case True
    then have r: "outp \<le> j div 8 \<and> j div 8 < outp + n" by (simp only: byte_range_bits)
    from True have a: "8 * outp \<le> j" by simp
    show ?thesis
      unfolding n_def [symmetric] outp_def [symmetric]
      by (simp only: True if_True simp_thms bitat_shift_bytes [OF a])
        (simp add: bitat_def AlignedBitmapOp_def aligned_bytes_eq r bit_BitOp
          flip: n_def outp_def)
  next
    case False
    then have nr: "\<not> (outp \<le> j div 8 \<and> j div 8 < outp + n)"
      using byte_range_bits [of outp j n] by blast
    show ?thesis
      unfolding n_def [symmetric] outp_def [symmetric]
      by (simp only: False if_False)
        (simp add: bitat_def AlignedBitmapOp_def aligned_bytes_eq nr flip: n_def outp_def)
  qed
qed

lemma shift_word_inline:
  "(if s \<noteq> 0 then drop_bit s w0 OR push_bit (64 - s) w1 else w0) = shift_word w0 w1 s"
  by (simp add: shift_word_def)

lemma unaligned_words_step:
  "unaligned_words op left lb right rb ob nwords lp lword rp rword outp oword out =
    (let out_word = BitOp op (shift_word lword (load_word left (lp + 8)) lb)
                      (shift_word rword (load_word right (rp + 8)) rb);
         rot = push_bit ob out_word OR drop_bit (64 - ob) out_word;
         ow1 = (load_word out (outp + 8) AND NOT (offset_mask ob)) OR (rot AND offset_mask ob);
         out' = (if ob \<noteq> 0
                 then write_word (write_word out outp
                        ((oword AND offset_mask ob) OR (rot AND NOT (offset_mask ob))))
                        (outp + 8) ow1
                 else write_word out outp out_word)
     in if 1 < nwords - 1
        then unaligned_words op left lb right rb ob (nwords - 1) (lp + 8)
               (load_word left (lp + 8)) (rp + 8) (load_word right (rp + 8)) (outp + 8)
               (if ob \<noteq> 0 then ow1 else oword) out'
        else (lp + 8, rp + 8, outp + 8, out'))"
  by (subst unaligned_words.simps) (simp add: Let_def shift_word_def)

lemma unaligned_store_bits:
  fixes op :: bit_functor and left right out :: bytes and lp rp outp lb rb ob :: nat
    and oword :: uint64
  assumes "lb < 8" and "rb < 8" and "ob < 8"
    and "ob \<noteq> 0 \<Longrightarrow> oword = load_word out outp"
  defines "out_word \<equiv> BitOp op (shift_word (load_word left lp) (load_word left (lp + 8)) lb)
                      (shift_word (load_word right rp) (load_word right (rp + 8)) rb)"
  defines "rot \<equiv> push_bit ob out_word OR drop_bit (64 - ob) out_word"
  defines "ow1 \<equiv> (load_word out (outp + 8) AND NOT (offset_mask ob)) OR (rot AND offset_mask ob)"
  defines "out' \<equiv> (if ob \<noteq> 0
                 then write_word (write_word out outp
                        ((oword AND offset_mask ob) OR (rot AND NOT (offset_mask ob))))
                        (outp + 8) ow1
                 else write_word out outp out_word)"
  shows "bitat out' j =
       (if 8 * outp + ob \<le> j \<and> j < 8 * outp + ob + 64
        then bool_op op (bitat left (8 * lp + (lb + (j - (8 * outp + ob)))))
               (bitat right (8 * rp + (rb + (j - (8 * outp + ob)))))
        else bitat out j)"
    and "ob \<noteq> 0 \<Longrightarrow> ow1 = load_word out' (outp + 8)"
proof -
  have w: "bit out_word m = bool_op op (bitat left (8 * lp + (lb + m))) (bitat right (8 * rp + (rb + m)))"
    if "m < 64" for m
    unfolding out_word_def bit_BitOp
    by (simp only: bit_shifted_load [OF assms(1)] bit_shifted_load [OF assms(2)] that simp_thms)
  show "ob \<noteq> 0 \<Longrightarrow> ow1 = load_word out' (outp + 8)"
    by (simp add: out'_def load_word_write_word)
  show "bitat out' j =
       (if 8 * outp + ob \<le> j \<and> j < 8 * outp + ob + 64
        then bool_op op (bitat left (8 * lp + (lb + (j - (8 * outp + ob)))))
               (bitat right (8 * rp + (rb + (j - (8 * outp + ob)))))
        else bitat out j)"
  proof (cases "ob = 0")
    case True
    have o: "out' = write_word out outp out_word" by (simp add: out'_def True)
    show ?thesis
    proof (cases "8 * outp \<le> j \<and> j < 8 * outp + 64")
      case t: True
      then have "j - 8 * outp < 64" by arith
      from w [OF this] show ?thesis
        using t by (simp only: o True add_0_right bitat_write_word if_True)
    next
      case f: False
      then show ?thesis
        by (simp only: o True add_0_right bitat_write_word if_False)
    qed
  next
    case False
    then have ob0: "0 < ob" by simp
    have o: "out' = write_word (write_word out outp
                        ((load_word out outp AND offset_mask ob) OR (rot AND NOT (offset_mask ob))))
                        (outp + 8) ow1"
      using False assms(4) by (simp add: out'_def)
    show ?thesis
    proof (cases "8 * outp + ob \<le> j \<and> j < 8 * outp + ob + 64")
      case t: True
      then have "j - (8 * outp + ob) < 64" by arith
      from w [OF this] show ?thesis
        unfolding o ow1_def rot_def
        using t by (simp only: split_store [OF ob0 assms(3)] if_True)
    next
      case f: False
      then show ?thesis
        unfolding o ow1_def rot_def
        by (simp only: split_store [OF ob0 assms(3)] if_False)
    qed
  qed
qed

lemma unaligned_words_correct:
  assumes "lb < 8" and "rb < 8" and "ob < 8"
    and "nwords = k + 2"
    and "lword = load_word left lp" and "rword = load_word right rp"
    and "ob \<noteq> 0 \<Longrightarrow> oword = load_word out outp"
  shows "fst (unaligned_words op left lb right rb ob nwords lp lword rp rword outp oword out) = lp + 8 * (k + 1) \<and>
    fst (snd (unaligned_words op left lb right rb ob nwords lp lword rp rword outp oword out)) = rp + 8 * (k + 1) \<and>
    fst (snd (snd (unaligned_words op left lb right rb ob nwords lp lword rp rword outp oword out))) = outp + 8 * (k + 1) \<and>
    (\<forall>j. bitat (snd (snd (snd (unaligned_words op left lb right rb ob nwords lp lword rp rword outp oword out)))) j =
       (if 8 * outp + ob \<le> j \<and> j < 8 * outp + ob + 64 * (k + 1)
        then bool_op op (bitat left (8 * lp + (lb + (j - (8 * outp + ob)))))
               (bitat right (8 * rp + (rb + (j - (8 * outp + ob)))))
        else bitat out j))"
  using assms(4-7)
proof (induction k arbitrary: nwords lp lword rp rword outp oword out)
  case (0 nwords lp lword rp rword outp oword out)
  have nw: "\<not> 1 < nwords - 1" using 0(1) by simp
  note sb = unaligned_store_bits [OF assms(1-3), where oword = oword and out = out and outp = outp and op = op
      and left = left and lp = lp and right = right and rp = rp,
      folded 0(2) 0(3)]
  define out_word where "out_word = BitOp op (shift_word lword (load_word left (lp + 8)) lb)
                      (shift_word rword (load_word right (rp + 8)) rb)"
  define rot where "rot = push_bit ob out_word OR drop_bit (64 - ob) out_word"
  define ow1 where "ow1 = (load_word out (outp + 8) AND NOT (offset_mask ob)) OR (rot AND offset_mask ob)"
  define out' where "out' = (if ob \<noteq> 0
                 then write_word (write_word out outp
                        ((oword AND offset_mask ob) OR (rot AND NOT (offset_mask ob))))
                        (outp + 8) ow1
                 else write_word out outp out_word)"
  have unf: "unaligned_words op left lb right rb ob nwords lp lword rp rword outp oword out =
      (lp + 8, rp + 8, outp + 8, out')"
    by (subst unaligned_words_step)
      (simp only: Let_def nw if_False out'_def ow1_def rot_def out_word_def)
  have d: "bitat out' j =
       (if 8 * outp + ob \<le> j \<and> j < 8 * outp + ob + 64
        then bool_op op (bitat left (8 * lp + (lb + (j - (8 * outp + ob)))))
               (bitat right (8 * rp + (rb + (j - (8 * outp + ob)))))
        else bitat out j)" for j
    unfolding out'_def ow1_def rot_def out_word_def by (rule sb(1) [OF 0(4)])
  show ?case
    unfolding unf by (simp only: fst_conv snd_conv d) simp
next
  case (Suc k nwords lp lword rp rword outp oword out)
  have nw: "1 < nwords - 1" and nk: "nwords - 1 = k + 2" using Suc.prems(1) by simp_all
  note sb = unaligned_store_bits [OF assms(1-3), where oword = oword and out = out and outp = outp and op = op
      and left = left and lp = lp and right = right and rp = rp,
      folded Suc.prems(2) Suc.prems(3)]
  define out_word where "out_word = BitOp op (shift_word lword (load_word left (lp + 8)) lb)
                      (shift_word rword (load_word right (rp + 8)) rb)"
  define rot where "rot = push_bit ob out_word OR drop_bit (64 - ob) out_word"
  define ow1 where "ow1 = (load_word out (outp + 8) AND NOT (offset_mask ob)) OR (rot AND offset_mask ob)"
  define out' where "out' = (if ob \<noteq> 0
                 then write_word (write_word out outp
                        ((oword AND offset_mask ob) OR (rot AND NOT (offset_mask ob))))
                        (outp + 8) ow1
                 else write_word out outp out_word)"
  have unf: "unaligned_words op left lb right rb ob nwords lp lword rp rword outp oword out =
      unaligned_words op left lb right rb ob (nwords - 1) (lp + 8)
               (load_word left (lp + 8)) (rp + 8) (load_word right (rp + 8)) (outp + 8)
               (if ob \<noteq> 0 then ow1 else oword) out'"
    by (subst unaligned_words_step)
      (simp only: Let_def nw if_True out'_def ow1_def rot_def out_word_def)
  have d: "bitat out' j =
       (if 8 * outp + ob \<le> j \<and> j < 8 * outp + ob + 64
        then bool_op op (bitat left (8 * lp + (lb + (j - (8 * outp + ob)))))
               (bitat right (8 * rp + (rb + (j - (8 * outp + ob)))))
        else bitat out j)" for j
    unfolding out'_def ow1_def rot_def out_word_def by (rule sb(1) [OF Suc.prems(4)])
  have n: "ob \<noteq> 0 \<Longrightarrow> (if ob \<noteq> 0 then ow1 else oword) = load_word out' (outp + 8)"
    unfolding out'_def ow1_def rot_def out_word_def
    using sb(2) [OF Suc.prems(4)] by simp
  note IH = Suc.IH [OF nk refl refl n, of "lp + 8" "rp + 8"]
  have e: "8 * outp + 64 + ob \<le> j \<Longrightarrow>
      8 * (p + 8) + (b + (j - (8 * outp + 64 + ob))) = 8 * p + (b + (j - (8 * outp + ob)))" for j p b
    by simp
  show ?case
    unfolding unf using IH d e by (auto simp: add.assoc)
qed

lemma unaligned_bits_step:
  "len \<noteq> 0 \<Longrightarrow> unaligned_bits lop left lp right rp outp len lr rr w out =
     unaligned_bits lop left lp right rp outp (len - 1) (Reader_Next left lp lr)
       (Reader_Next right rp rr)
       (fst (Writer_Next out outp (if lop (IsSet lr) (IsSet rr) then Writer_Set w else Writer_Clear w)))
       (snd (Writer_Next out outp (if lop (IsSet lr) (IsSet rr) then Writer_Set w else Writer_Clear w)))"
  by (subst unaligned_bits.simps) (simp add: Let_def case_prod_beta)

lemma unaligned_bits_stop:
  "unaligned_bits lop left lp right rp outp 0 lr rr w out = (w, out)"
  by (subst unaligned_bits.simps) simp

lemma unaligned_bits_correct:
  assumes "reader_at left lp lb len0 k lr" and "reader_at right rp rb len0 k rr"
    and "writer_at ob len0 k w" and "k + len = len0"
  shows "bitat (Writer_Finish (snd (unaligned_bits lop left lp right rp outp len lr rr w out)) outp
                 (fst (unaligned_bits lop left lp right rp outp len lr rr w out))) j =
     (if 8 * outp + (ob + k) \<le> j \<and> j < 8 * outp + (ob + len0)
      then lop (bitat left (8 * lp + (lb + (j - (8 * outp + ob)))))
             (bitat right (8 * rp + (rb + (j - (8 * outp + ob)))))
      else bitat (Writer_Finish out outp w) j)"
  using assms
proof (induction len arbitrary: k lr rr w out)
  case 0
  then show ?case by (auto simp: unaligned_bits_stop)
next
  case (Suc n)
  then have kl: "k < len0" by simp
  define b where "b = lop (IsSet lr) (IsSet rr)"
  define w1 where "w1 = (if b then Writer_Set w else Writer_Clear w)"
  define wn where "wn = Writer_Next out outp w1"
  have bb: "b = lop (bitat left (8 * lp + (lb + k))) (bitat right (8 * rp + (rb + k)))"
    using reader_at_IsSet [OF Suc.prems(1) kl] reader_at_IsSet [OF Suc.prems(2) kl]
    by (simp add: b_def)
  have l': "reader_at left lp lb len0 (Suc k) (Reader_Next left lp lr)"
    using Suc.prems(1) by (rule reader_at_Next)
  have r': "reader_at right rp rb len0 (Suc k) (Reader_Next right rp rr)"
    using Suc.prems(2) by (rule reader_at_Next)
  have w': "writer_at ob len0 (Suc k) (fst wn)"
    unfolding wn_def w1_def using Suc.prems(3) kl by (rule writer_step(1))
  have fin: "bitat (Writer_Finish (snd wn) outp (fst wn)) j =
           (if j = 8 * outp + (ob + k) then b else bitat (Writer_Finish out outp w) j)"
    unfolding wn_def w1_def using Suc.prems(3) kl by (rule writer_step(2))
  have n: "Suc k + n = len0" using Suc.prems(4) by simp
  have unf: "unaligned_bits lop left lp right rp outp (Suc n) lr rr w out =
      unaligned_bits lop left lp right rp outp n (Reader_Next left lp lr)
        (Reader_Next right rp rr) (fst wn) (snd wn)"
    using unaligned_bits_step [of "Suc n"] by (simp add: wn_def w1_def b_def)
  show ?case
    unfolding unf
    using Suc.IH [OF l' r' w' n, of "snd wn"] fin bb kl
    by auto
qed

lemma unaligned_tail_bits:
  "bitat (Writer_Finish
            (snd (unaligned_bits lop left lp right rp outp len (BitmapReader_new left lp lb len)
                    (BitmapReader_new right rp rb len) (BitmapWriter_new out outp ob len) out))
            outp
            (fst (unaligned_bits lop left lp right rp outp len (BitmapReader_new left lp lb len)
                    (BitmapReader_new right rp rb len) (BitmapWriter_new out outp ob len) out))) j =
     (if 8 * outp + ob \<le> j \<and> j < 8 * outp + ob + len
      then lop (bitat left (8 * lp + (lb + (j - (8 * outp + ob)))))
             (bitat right (8 * rp + (rb + (j - (8 * outp + ob)))))
      else bitat out j)"
  using unaligned_bits_correct [OF reader_at_new reader_at_new writer_at_new,
      where lop = lop and left = left and lp = lp and lb = lb and right = right and rp = rp
        and rb = rb and outp = outp and ob = ob and out = out and len = len and j = j
        and ?len0.0 = len]
  by (simp add: Writer_Finish_new add.assoc)

lemma unaligned_tail_empty:
  "Writer_Finish
     (snd (unaligned_bits lop left lp right rp outp 0 (BitmapReader_new left lp lb 0)
             (BitmapReader_new right rp rb 0) (BitmapWriter_new out outp ob 0) out))
     outp
     (fst (unaligned_bits lop left lp right rp outp 0 (BitmapReader_new left lp lb 0)
             (BitmapReader_new right rp rb 0) (BitmapWriter_new out outp ob 0) out)) = out"
  by (simp add: unaligned_bits_stop Writer_Finish_new)

lemma unaligned_nwords_bound:
  assumes "m < 8" and "1 < BytesForBits (len + m) div 8"
  shows "(BytesForBits (len + m) div 8 - 1) * 64 + 49 < len"
proof -
  define nb where "nb = BytesForBits (len + m)"
  have a: "8 * nb < len + m + 8" using BytesForBits_bounds [of "len + m"] by (simp add: nb_def)
  have b: "8 * (nb div 8) \<le> nb" by simp
  have c: "1 < nb div 8" using assms(2) by (simp add: nb_def)
  have "64 * (nb div 8) \<le> 8 * nb" using b by simp
  then have "64 * (nb div 8) < len + m + 8" using a by simp
  then have "(nb div 8 - 1) * 64 + 64 < len + m + 8" using c by (simp add: algebra_simps)
  then show ?thesis using assms(1) by (simp add: nb_def)
qed

lemma UnalignedBitmapOp_bits:
  assumes lop: "\<And>a b. lop a b = bool_op op a b"
  shows "bitat (UnalignedBitmapOp op lop left left_offset right right_offset out out_offset len) j =
     (if out_offset \<le> j \<and> j < out_offset + len
      then bool_op op (bitat left (left_offset + (j - out_offset)))
             (bitat right (right_offset + (j - out_offset)))
      else bitat out j)"
proof -
  define lb where "lb = left_offset mod 8"
  define rb where "rb = right_offset mod 8"
  define ob where "ob = out_offset mod 8"
  define lp where "lp = left_offset div 8"
  define rp where "rp = right_offset div 8"
  define outp where "outp = out_offset div 8"
  define nwords where "nwords = BytesForBits (len + min lb (min rb ob)) div 8"
  define F where "F i = bool_op op (bitat left (8 * lp + (lb + i))) (bitat right (8 * rp + (rb + i)))" for i
  define T where "T lp' rp' outp' out' len' =
    Writer_Finish
     (snd (unaligned_bits lop left lp' right rp' outp' len' (BitmapReader_new left lp' lb len')
             (BitmapReader_new right rp' rb len') (BitmapWriter_new out' outp' ob len') out'))
     outp'
     (fst (unaligned_bits lop left lp' right rp' outp' len' (BitmapReader_new left lp' lb len')
             (BitmapReader_new right rp' rb len') (BitmapWriter_new out' outp' ob len') out'))"
    for lp' rp' outp' out' len'
  have lb8: "lb < 8" and rb8: "rb < 8" and ob8: "ob < 8" by (simp_all add: lb_def rb_def ob_def)
  have lo: "left_offset = 8 * lp + lb" and ro: "right_offset = 8 * rp + rb"
    and oo: "out_offset = 8 * outp + ob"
    by (simp_all add: lp_def rp_def outp_def lb_def rb_def ob_def)
  have Tif: "(if len' \<noteq> 0 then T lp' rp' outp' out' len' else out') = T lp' rp' outp' out' len'"
    for lp' rp' outp' out' len'
    by (cases "len' = 0") (simp_all add: T_def unaligned_tail_empty)
  have Tbits: "bitat (T lp' rp' outp' out' len') j =
     (if 8 * outp' + ob \<le> j \<and> j < 8 * outp' + ob + len'
      then lop (bitat left (8 * lp' + (lb + (j - (8 * outp' + ob)))))
             (bitat right (8 * rp' + (rb + (j - (8 * outp' + ob)))))
      else bitat out' j)" for lp' rp' outp' out' len'
    unfolding T_def by (rule unaligned_tail_bits)
  have goal: "(if out_offset \<le> j \<and> j < out_offset + len
      then bool_op op (bitat left (left_offset + (j - out_offset)))
             (bitat right (right_offset + (j - out_offset)))
      else bitat out j) =
     (if 8 * outp + ob \<le> j \<and> j < 8 * outp + ob + len then F (j - (8 * outp + ob)) else bitat out j)"
    by (simp add: F_def lo ro oo add.assoc)
  show ?thesis
  proof (cases "1 < nwords")
    case False
    have res: "UnalignedBitmapOp op lop left left_offset right right_offset out out_offset len =
        T lp rp outp out len"
      unfolding UnalignedBitmapOp_def Let_def
      apply (fold lb_def rb_def ob_def lp_def rp_def outp_def)
      apply (fold nwords_def)
      apply (simp only: False if_False prod.case case_prod_beta fst_conv snd_conv
          Tif [unfolded T_def])
      apply (simp only: T_def)
      done
    show ?thesis
      unfolding goal res Tbits by (simp add: F_def lop)
  next
    case True
    define k where "k = nwords - 2"
    define uw where "uw = unaligned_words op left lb right rb ob nwords lp (load_word left lp) rp
       (load_word right rp) outp (load_word out outp) out"
    have nk: "nwords = k + 2" using True by (simp add: k_def)
    have m8: "min lb (min rb ob) < 8" using lb8 by simp
    have bound: "(nwords - 1) * 64 + 49 < len"
      unfolding nwords_def using m8 True [unfolded nwords_def] by (rule unaligned_nwords_bound)
    have uwc: "fst uw = lp + 8 * (k + 1) \<and> fst (snd uw) = rp + 8 * (k + 1) \<and>
        fst (snd (snd uw)) = outp + 8 * (k + 1) \<and>
        (\<forall>j. bitat (snd (snd (snd uw))) j =
          (if 8 * outp + ob \<le> j \<and> j < 8 * outp + ob + 64 * (k + 1)
           then bool_op op (bitat left (8 * lp + (lb + (j - (8 * outp + ob)))))
               (bitat right (8 * rp + (rb + (j - (8 * outp + ob)))))
           else bitat out j))"
      unfolding uw_def by (rule unaligned_words_correct [OF lb8 rb8 ob8 nk]) simp_all
    have uw1: "fst uw = lp + 8 * (k + 1)" and uw2: "fst (snd uw) = rp + 8 * (k + 1)"
      and uw3: "fst (snd (snd uw)) = outp + 8 * (k + 1)"
      and uw4: "\<And>j. bitat (snd (snd (snd uw))) j =
          (if 8 * outp + ob \<le> j \<and> j < 8 * outp + ob + 64 * (k + 1)
           then F (j - (8 * outp + ob)) else bitat out j)"
      using uwc by (simp_all add: F_def)
    have res: "UnalignedBitmapOp op lop left left_offset right right_offset out out_offset len =
        T (fst uw) (fst (snd uw)) (fst (snd (snd uw))) (snd (snd (snd uw))) (len - (nwords - 1) * 64)"
      unfolding UnalignedBitmapOp_def Let_def
      apply (fold lb_def rb_def ob_def lp_def rp_def outp_def)
      apply (fold nwords_def)
      apply (fold uw_def)
      apply (simp only: True if_True prod.case case_prod_beta fst_conv snd_conv Tif [unfolded T_def])
      apply (simp only: T_def)
      done
    have k1: "nwords - 1 = k + 1" using nk by simp
    have tail: "bitat (UnalignedBitmapOp op lop left left_offset right right_offset out out_offset len) j =
       (if 8 * (outp + 8 * (k + 1)) + ob \<le> j \<and>
           j < 8 * (outp + 8 * (k + 1)) + ob + (len - (k + 1) * 64)
        then lop (bitat left (8 * (lp + 8 * (k + 1)) + (lb + (j - (8 * (outp + 8 * (k + 1)) + ob)))))
             (bitat right (8 * (rp + 8 * (k + 1)) + (rb + (j - (8 * (outp + 8 * (k + 1)) + ob)))))
        else bitat (snd (snd (snd uw))) j)"
      unfolding res Tbits uw1 uw2 uw3 k1 by (rule refl)
    have kl: "64 * (k + 1) \<le> len" using bound k1 by simp
    define A where "A = 8 * outp + ob"
    consider (a) "j < A" | (b) "A \<le> j" "j < A + 64 * (k + 1)"
      | (c) "A + 64 * (k + 1) \<le> j" "j < A + len" | (d) "A + len \<le> j"
      by linarith
    then show ?thesis
    proof cases
      case a
      have c1: "\<not> (8 * (outp + 8 * (k + 1)) + ob \<le> j \<and>
           j < 8 * (outp + 8 * (k + 1)) + ob + (len - (k + 1) * 64))"
        using a by (simp add: A_def)
      have c2: "\<not> (8 * outp + ob \<le> j \<and> j < 8 * outp + ob + 64 * (k + 1))"
        using a by (simp add: A_def)
      have c3: "\<not> (8 * outp + ob \<le> j \<and> j < 8 * outp + ob + len)"
        using a by (simp add: A_def)
      show ?thesis
        unfolding goal tail by (simp only: if_not_P [OF c1] if_not_P [OF c3] uw4 if_not_P [OF c2])
    next
      case b
      have c1: "\<not> (8 * (outp + 8 * (k + 1)) + ob \<le> j \<and>
           j < 8 * (outp + 8 * (k + 1)) + ob + (len - (k + 1) * 64))"
        using b by (simp add: A_def)
      have c2: "8 * outp + ob \<le> j \<and> j < 8 * outp + ob + 64 * (k + 1)"
        using b by (simp add: A_def)
      have c3: "8 * outp + ob \<le> j \<and> j < 8 * outp + ob + len"
        using b kl by (simp add: A_def)
      show ?thesis
        unfolding goal tail by (simp only: if_not_P [OF c1] if_P [OF c3] uw4 if_P [OF c2])
    next
      case c
      have c1: "8 * (outp + 8 * (k + 1)) + ob \<le> j \<and>
           j < 8 * (outp + 8 * (k + 1)) + ob + (len - (k + 1) * 64)"
        using c kl by (simp add: A_def)
      have c3: "8 * outp + ob \<le> j \<and> j < 8 * outp + ob + len"
        using c by (simp add: A_def)
      have ix: "8 * (p + 8 * (k + 1)) + (q + (j - (8 * (outp + 8 * (k + 1)) + ob))) =
          8 * p + (q + (j - (8 * outp + ob)))" for p q
        using c by (simp add: A_def)
      show ?thesis
        unfolding goal tail by (simp only: if_P [OF c1] if_P [OF c3] ix lop F_def)
    next
      case d
      have c1: "\<not> (8 * (outp + 8 * (k + 1)) + ob \<le> j \<and>
           j < 8 * (outp + 8 * (k + 1)) + ob + (len - (k + 1) * 64))"
        using d kl by (simp add: A_def)
      have c2: "\<not> (8 * outp + ob \<le> j \<and> j < 8 * outp + ob + 64 * (k + 1))"
        using d kl by (simp add: A_def)
      have c3: "\<not> (8 * outp + ob \<le> j \<and> j < 8 * outp + ob + len)"
        using d by (simp add: A_def)
      show ?thesis
        unfolding goal tail by (simp only: if_not_P [OF c1] if_not_P [OF c3] uw4 if_not_P [OF c2])
    qed
  qed
qed

lemma BitmapOp_bits_unaligned:
  assumes "\<And>a b. lop a b = bool_op op a b"
    and "\<not> (out_offset mod 8 = left_offset mod 8 \<and> out_offset mod 8 = right_offset mod 8)"
  shows "bitat (BitmapOp op lop left left_offset right right_offset len out_offset out) j =
     (if out_offset \<le> j \<and> j < out_offset + len
      then bool_op op (bitat left (left_offset + (j - out_offset)))
             (bitat right (right_offset + (j - out_offset)))
      else bitat out j)"
  using assms(2) by (simp only: BitmapOp_def if_False UnalignedBitmapOp_bits [of lop op, OF assms(1)])

lemma BitmapOp_bits_aligned:
  assumes "out_offset mod 8 = left_offset mod 8" and "out_offset mod 8 = right_offset mod 8"
  shows "bitat (BitmapOp op lop left left_offset right right_offset len out_offset out) j =
     (if 8 * (out_offset div 8) \<le> j \<and>
         j < 8 * (out_offset div 8) + 8 * BytesForBits (len + out_offset mod 8)
      then bool_op op (bitat left (8 * (left_offset div 8) + (j - 8 * (out_offset div 8))))
             (bitat right (8 * (right_offset div 8) + (j - 8 * (out_offset div 8))))
      else bitat out j)"
  using assms by (simp add: BitmapOp_def AlignedBitmapOp_bits)

lemma BitmapOp_range:
  assumes lop: "\<And>a b. lop a b = bool_op op a b" and i: "i < len"
  shows "GetBit (BitmapOp op lop left left_offset right right_offset len out_offset out) 0
           (out_offset + i) =
         bool_op op (GetBit left 0 (left_offset + i)) (GetBit right 0 (right_offset + i))"
proof (cases "out_offset mod 8 = left_offset mod 8 \<and> out_offset mod 8 = right_offset mod 8")
  case False
  have c: "out_offset \<le> out_offset + i \<and> out_offset + i < out_offset + len" using i by simp
  show ?thesis
    by (simp only: GetBit_bitat mult_0_right add_0 BitmapOp_bits_unaligned [of lop op, OF lop False]
        if_P [OF c] add_diff_cancel_left')
next
  case True
  then have l: "out_offset mod 8 = left_offset mod 8" and r: "out_offset mod 8 = right_offset mod 8"
    by simp_all
  define ob where "ob = out_offset mod 8"
  define outp where "outp = out_offset div 8"
  have oo: "out_offset = 8 * outp + ob" by (simp add: ob_def outp_def)
  have lo: "left_offset = 8 * (left_offset div 8) + ob" using l by (simp add: ob_def)
  have ro: "right_offset = 8 * (right_offset div 8) + ob" using r by (simp add: ob_def)
  have "len + ob \<le> 8 * BytesForBits (len + ob)" using BytesForBits_bounds [of "len + ob"] by simp
  then have c: "8 * outp \<le> out_offset + i \<and> out_offset + i < 8 * outp + 8 * BytesForBits (len + ob)"
    using i oo by simp
  have e: "out_offset + i - 8 * outp = ob + i" using oo by simp
  have e1: "8 * (left_offset div 8) + (ob + i) = left_offset + i" using lo by simp
  have e2: "8 * (right_offset div 8) + (ob + i) = right_offset + i" using ro by simp
  show ?thesis
    unfolding GetBit_bitat mult_0_right add_0 BitmapOp_bits_aligned [OF l r]
    unfolding ob_def [symmetric] outp_def [symmetric]
    by (simp only: if_P [OF c] e e1 e2)
qed

lemma BitmapOp_frame_unaligned:
  assumes "\<And>a b. lop a b = bool_op op a b"
    and "\<not> (out_offset mod 8 = left_offset mod 8 \<and> out_offset mod 8 = right_offset mod 8)"
    and "j < out_offset \<or> out_offset + len \<le> j"
  shows "GetBit (BitmapOp op lop left left_offset right right_offset len out_offset out) 0 j =
         GetBit out 0 j"
  using assms(3)
  by (auto simp add: GetBit_bitat BitmapOp_bits_unaligned [of lop op, OF assms(1,2)])

lemma BitmapOp_frame_bytes:
  assumes lop: "\<And>a b. lop a b = bool_op op a b"
    and j: "j < 8 * (out_offset div 8) \<or>
         8 * (out_offset div 8) + 8 * BytesForBits (len + out_offset mod 8) \<le> j"
  shows "GetBit (BitmapOp op lop left left_offset right right_offset len out_offset out) 0 j =
         GetBit out 0 j"
proof (cases "out_offset mod 8 = left_offset mod 8 \<and> out_offset mod 8 = right_offset mod 8")
  case True
  then have l: "out_offset mod 8 = left_offset mod 8" and r: "out_offset mod 8 = right_offset mod 8"
    by simp_all
  have c: "\<not> (8 * (out_offset div 8) \<le> j \<and>
         j < 8 * (out_offset div 8) + 8 * BytesForBits (len + out_offset mod 8))"
    using j by auto
  show ?thesis
    by (simp only: GetBit_bitat mult_0_right add_0 BitmapOp_bits_aligned [OF l r] if_not_P [OF c])
next
  case False
  define ob where "ob = out_offset mod 8"
  define outp where "outp = out_offset div 8"
  have oo: "out_offset = 8 * outp + ob" by (simp add: ob_def outp_def)
  have "len + ob \<le> 8 * BytesForBits (len + ob)" using BytesForBits_bounds [of "len + ob"] by simp
  moreover have "j < 8 * outp \<or> 8 * outp + 8 * BytesForBits (len + ob) \<le> j"
    using j by (simp only: ob_def outp_def)
  ultimately have "j < out_offset \<or> out_offset + len \<le> j"
    unfolding oo by linarith
  then show ?thesis
    by (rule BitmapOp_frame_unaligned [of lop op, OF lop False])
qed

lemma logical_functors:
  "logical_and a b = bool_op bit_and a b"
  "logical_or a b = bool_op bit_or a b"
  "bit_xor_bool a b = bool_op bit_xor a b"
  by (simp_all add: logical_and_def logical_or_def bit_xor_bool_def)

end
